theory Spec2Isabelle
  imports Main
begin

section \<open>The edge middleware of \<open>middleware.ts\<close>\<close>

text \<open>
  The module filters every inbound request through three checks (origin country,
  User-Agent allow-list, per-IP rate limit), keeps two windowed counters in Redis and
  sends one Telegram alert per detection window. The embedding keeps the source's
  names. Everything outside the module is a value handed to \<open>middleware\<close>: the Redis
  keyspace and the event trace are the \<open>world\<close>, process environment and the behaviour
  of the network are the \<open>env\<close>, the rate limiter's \<open>limit\<close> method is a function.
\<close>

subsection \<open>Settings\<close>

definition BLOCKED_COUNTRIES :: "string list" where
  "BLOCKED_COUNTRIES =
     [''VN'', ''CN'', ''IN'', ''PK'', ''BR'', ''ID'', ''TH'', ''TR'', ''EG'', ''SC'',
      ''IR'', ''NG'', ''RU'']"

definition ALLOWED_USER_AGENTS :: "string list" where
  "ALLOWED_USER_AGENTS =
     [''Chrome'', ''Firefox'', ''Safari'', ''Edg'', ''OPR'',
      ''Googlebot'', ''Bingbot'', ''Slurp'', ''DuckDuckBot'', ''YandexBot'']"

text \<open>\<open>INDIVIDUAL_RATE_LIMIT = { requests: 10, window: '10 s' }\<close>; the window in
  milliseconds.\<close>

definition INDIVIDUAL_RATE_LIMIT_requests :: nat where
  "INDIVIDUAL_RATE_LIMIT_requests = 10"

definition INDIVIDUAL_RATE_LIMIT_window :: nat where
  "INDIVIDUAL_RATE_LIMIT_window = 10 * 1000"

definition ATTACK_THRESHOLD :: int where
  "ATTACK_THRESHOLD = 10000"

definition ATTACK_TIME_WINDOW_SECONDS :: nat where
  "ATTACK_TIME_WINDOW_SECONDS = 60"

subsection \<open>The Redis keyspace\<close>

text \<open>
  A value is either a decimal integer, which is what \<open>INCR\<close> writes and accepts and
  what the client hands back as a number, or some other text. A key may carry a time
  to live, kept as the milliseconds that remain.
\<close>

type_synonym key = string

datatype rval = Num int | Str string

record entry =
  val :: rval
  ttl :: "nat option"

type_synonym store = "key \<Rightarrow> entry option"

datatype cmd =
    INCR key
  | EXPIRE_NX key nat
  | GET key
  | SET_EX key string nat

datatype reply = RInt int | RBulk "rval option" | ROk | RErr

text \<open>\<open>INCR\<close> creates a missing key at 1 without a time to live, keeps the time to
  live of an existing one, and answers with an error on text and at the top of the
  signed 64-bit range.\<close>

definition incr :: "key \<Rightarrow> store \<Rightarrow> reply \<times> store" where
  "incr k s =
     (case s k of
        None \<Rightarrow> (RInt 1, s(k \<mapsto> \<lparr>val = Num 1, ttl = None\<rparr>))
      | Some e \<Rightarrow>
          (case val e of
             Num n \<Rightarrow>
               if n < 2 ^ 63 - 1
               then (RInt (n + 1), s(k \<mapsto> e\<lparr>val := Num (n + 1)\<rparr>))
               else (RErr, s)
           | Str t \<Rightarrow> (RErr, s)))"

text \<open>\<open>EXPIRE key seconds NX\<close>: sets the time to live only when the key exists and has
  none.\<close>

definition expire_nx :: "key \<Rightarrow> nat \<Rightarrow> store \<Rightarrow> reply \<times> store" where
  "expire_nx k secs s =
     (case s k of
        None \<Rightarrow> (RInt 0, s)
      | Some e \<Rightarrow>
          (case ttl e of
             None \<Rightarrow> (RInt 1, s(k \<mapsto> e\<lparr>ttl := Some (secs * 1000)\<rparr>))
           | Some t \<Rightarrow> (RInt 0, s)))"

definition set_ex :: "key \<Rightarrow> string \<Rightarrow> nat \<Rightarrow> store \<Rightarrow> reply \<times> store" where
  "set_ex k v secs s = (ROk, s(k \<mapsto> \<lparr>val = Str v, ttl = Some (secs * 1000)\<rparr>))"

fun exec_cmd :: "cmd \<Rightarrow> store \<Rightarrow> reply \<times> store" where
  "exec_cmd (INCR k) s = incr k s"
| "exec_cmd (EXPIRE_NX k secs) s = expire_nx k secs s"
| "exec_cmd (GET k) s = (RBulk (map_option val (s k)), s)"
| "exec_cmd (SET_EX k v secs) s = set_ex k v secs s"

text \<open>The commands of one round trip run in order; a command that answers with an
  error does not stop the ones after it.\<close>

fun exec_cmds :: "cmd list \<Rightarrow> store \<Rightarrow> reply list \<times> store" where
  "exec_cmds [] s = ([], s)"
| "exec_cmds (c # cs) s =
     (let (r, s1) = exec_cmd c s; (rs, s2) = exec_cmds cs s1 in (r # rs, s2))"

text \<open>Time passing: a key whose time to live runs out is gone.\<close>

definition age :: "nat \<Rightarrow> store \<Rightarrow> store" where
  "age d s =
     (\<lambda>k. case s k of
             None \<Rightarrow> None
           | Some e \<Rightarrow>
               (case ttl e of
                  None \<Rightarrow> Some e
                | Some t \<Rightarrow> if t \<le> d then None else Some (e\<lparr>ttl := Some (t - d)\<rparr>)))"

subsection \<open>Requests, responses, the world\<close>

record request =
  ip :: "string option"
  geo_country :: "string option"
  user_agent :: "string option"

datatype response =
    NextResponse_next
  | NextResponse string nat

datatype error = StoreError

text \<open>JavaScript numbers that hold counter values. \<open>NaN\<close> stands for a text value
  read where a number is expected; nothing in this module writes text into a counter
  key. Integers are exact below \<open>2 ^ 53\<close>, far above what a counter reaches inside
  its window, and are kept as \<open>int\<close>.\<close>

datatype number = Fin int | NaN

fun number_gt :: "number \<Rightarrow> int \<Rightarrow> bool" where
  "number_gt (Fin a) b = (b < a)"
| "number_gt NaN b = False"

fun number_minus :: "number \<Rightarrow> number \<Rightarrow> number" where
  "number_minus (Fin a) (Fin b) = Fin (a - b)"
| "number_minus a b = NaN"

text \<open>The alert text is a fixed template around four interpolated values; the
  attack strength is the digits that \<open>toFixed(1)\<close> prints, without the decimal
  point.\<close>

record alert =
  attackStrength :: nat
  alert_totalRequests :: number
  alert_blockedRequests :: number
  passedRequests :: number

datatype event =
    Redis "cmd list"
  | Limit string
  | Fetch string string alert
  | ConsoleWarn string
  | ConsoleError string

record 'l world =
  store :: store
  limiter :: 'l
  clock :: nat
  events :: "event list"

text \<open>What the module finds around it. \<open>redis_configured\<close>: both Upstash variables
  were set when the module was loaded, so \<open>redis\<close> and \<open>ratelimit\<close> are not null.
  \<open>fails i\<close>: the call to the store (or to the limiter, which lives in the store)
  issued as event number \<open>i\<close> of the trace is rejected with an error: the request to
  the store throws, or comes back with an error status. Such a call leaves the store
  as it was. A call that is slow is not a failure: a limiter call that runs into the
  limiter's own time limit is answered by the limiter with \<open>success: true\<close>, which is
  an answer of the limiter function, and a call to Redis that never answers leaves the
  promise pending, which no run of this model does.
  \<open>fetch_rejects\<close>: a \<open>fetch\<close> to the Telegram API does not get through.
  \<open>read_delay\<close>: the time that passes between the pipeline and the read that follows
  it, the one place where the module reads back what it has just written; everywhere
  else a request is handled at one instant, and time passes between requests
  (\<open>elapse\<close>).\<close>

record env =
  redis_configured :: bool
  TELEGRAM_BOT_TOKEN :: "string option"
  TELEGRAM_CHAT_ID :: "string option"
  fails :: "nat \<Rightarrow> bool"
  fetch_rejects :: bool
  read_delay :: nat

definition elapse :: "nat \<Rightarrow> 'l world \<Rightarrow> 'l world" where
  "elapse d w = w\<lparr>store := age d (store w), clock := clock w + d\<rparr>"

subsection \<open>Awaited calls\<close>

text \<open>An awaited call either resolves with a value or rejects; a rejection that is
  not caught ends the function. Every call of the model settles.\<close>

type_synonym ('l, 'a) promise = "'l world \<Rightarrow> (error + 'a) \<times> 'l world"

definition await :: "('l, 'a) promise \<Rightarrow> ('a \<Rightarrow> ('l, 'b) promise) \<Rightarrow> ('l, 'b) promise" where
  "await m f w = (case m w of (Inl e, w1) \<Rightarrow> (Inl e, w1) | (Inr a, w1) \<Rightarrow> f a w1)"

definition resolve :: "'a \<Rightarrow> ('l, 'a) promise" where
  "resolve a w = (Inr a, w)"

text \<open>One round trip to Redis: the call is traced, is rejected as a whole when the
  environment says that it fails, and rejects when a command answered with an
  error.\<close>

definition redis_call :: "env \<Rightarrow> cmd list \<Rightarrow> ('l, reply list) promise" where
  "redis_call ev cs w =
     (let i = length (events w);
          w1 = w\<lparr>events := events w @ [Redis cs]\<rparr>
      in if fails ev i then (Inl StoreError, w1)
         else (let (rs, s) = exec_cmds cs (store w1);
                   w2 = w1\<lparr>store := s\<rparr>
               in if RErr \<in> set rs then (Inl StoreError, w2) else (Inr rs, w2)))"

definition redis_get :: "env \<Rightarrow> key \<Rightarrow> ('l, rval option) promise" where
  "redis_get ev k =
     await (redis_call ev [GET k])
       (\<lambda>rs. resolve (case rs of [RBulk v] \<Rightarrow> v | _ \<Rightarrow> None))"

definition redis_set :: "env \<Rightarrow> key \<Rightarrow> string \<Rightarrow> nat \<Rightarrow> ('l, unit) promise" where
  "redis_set ev k v secs = await (redis_call ev [SET_EX k v secs]) (\<lambda>rs. resolve ())"

text \<open>\<open>ratelimit.limit(ip)\<close>: the limiter is a function of its own state, the time
  and the key, and answers whether the request is admitted; whatever makes it answer,
  its time limit included, is part of that function. The call is traced, and it is
  rejected when its request to the store is rejected with an error.\<close>

type_synonym 'l limit = "'l \<Rightarrow> nat \<Rightarrow> string \<Rightarrow> bool \<times> 'l"

definition ratelimit_limit :: "'l limit \<Rightarrow> env \<Rightarrow> string \<Rightarrow> ('l, bool) promise" where
  "ratelimit_limit rl ev k w =
     (let i = length (events w);
          w1 = w\<lparr>events := events w @ [Limit k]\<rparr>
      in if fails ev i then (Inl StoreError, w1)
         else (let (success, l) = rl (limiter w1) (clock w1) k
               in (Inr success, w1\<lparr>limiter := l\<rparr>)))"

subsection \<open>Helper functions of the module\<close>

definition incrementBlockedCounter :: "env \<Rightarrow> ('l, unit) promise" where
  "incrementBlockedCounter ev =
     await (redis_call ev [INCR ''attack:blocked'']) (\<lambda>rs. resolve ())"

record counters =
  totalRequests :: number
  blockedRequests :: number

text \<open>What the client hands back for a counter key, as a number.\<close>

fun as_number :: "rval \<Rightarrow> number" where
  "as_number (Num n) = Fin n"
| "as_number (Str t) = NaN"

definition totalKey :: key where
  "totalKey = ''attack:total''"

definition blockedKey :: key where
  "blockedKey = ''attack:blocked''"

text \<open>The four commands queued on \<open>pipe\<close>. \<open>getAttackCounters\<close> executes them in
  one round trip, takes \<open>blocked\<close> from the third reply, then reads \<open>attack:total\<close>
  again: \<open>currentTotal\<close> is \<open>redis.get(totalKey) ?? 1\<close> and \<open>blockedRequests\<close> is
  \<open>parseInt(blocked ?? '0')\<close>.\<close>

definition pipe :: "cmd list" where
  "pipe =
     [INCR totalKey,
      EXPIRE_NX totalKey ATTACK_TIME_WINDOW_SECONDS,
      GET blockedKey,
      EXPIRE_NX blockedKey ATTACK_TIME_WINDOW_SECONDS]"

definition getAttackCounters :: "env \<Rightarrow> ('l, counters) promise" where
  "getAttackCounters ev =
     await (redis_call ev pipe)
       (\<lambda>rs. let blocked = (case rs of [r0, r1, RBulk b, r3] \<Rightarrow> b | _ \<Rightarrow> None)
             in (\<lambda>w. await (redis_get ev totalKey)
                   (\<lambda>t. let currentTotal = (case t of None \<Rightarrow> Fin 1 | Some v \<Rightarrow> as_number v)
                        in resolve
                             \<lparr>totalRequests = currentTotal,
                              blockedRequests =
                                (case blocked of None \<Rightarrow> Fin 0 | Some v \<Rightarrow> as_number v)\<rparr>)
                   (elapse (read_delay ev) w)))"

text \<open>Credentials are missing when a variable is unset or empty. A failed \<open>fetch\<close>
  is caught and logged; the function never rejects.\<close>

definition sendTelegramMessage :: "env \<Rightarrow> alert \<Rightarrow> 'l world \<Rightarrow> 'l world" where
  "sendTelegramMessage ev text w =
     (case (TELEGRAM_BOT_TOKEN ev, TELEGRAM_CHAT_ID ev) of
        (Some token, Some chatId) \<Rightarrow>
          if token = [] \<or> chatId = []
          then w\<lparr>events := events w @
                  [ConsoleWarn ''Telegram credentials are not set. Cannot send notification.'']\<rparr>
          else (let w1 = w\<lparr>events := events w @ [Fetch token chatId text]\<rparr>
                in if fetch_rejects ev
                   then w1\<lparr>events := events w1 @ [ConsoleError ''Failed to send Telegram message:'']\<rparr>
                   else w1)
      | _ \<Rightarrow> w\<lparr>events := events w @
                [ConsoleWarn ''Telegram credentials are not set. Cannot send notification.'']\<rparr>)"

subsection \<open>Number formatting\<close>

text \<open>
  \<open>(totalRequests / 60).toFixed(1)\<close> divides in IEEE double precision and then prints
  the tenth nearest to the double, the larger one at a tie. \<open>scale53 a b\<close> scales
  the fraction \<open>a / b\<close> by powers of two into the range of a 53-bit significand,
  \<open>round_half_even\<close> rounds it to an integer there, and \<open>double_div\<close> gives the
  rounded quotient back as a fraction.
\<close>

function scale53 :: "nat \<Rightarrow> nat \<Rightarrow> nat \<times> nat" where
  "scale53 a b =
     (if a = 0 \<or> b = 0 then (a, b)
      else if a < 2 ^ 52 * b then scale53 (2 * a) b
      else if 2 ^ 53 * b \<le> a then scale53 a (2 * b)
      else (a, b))"
  by pat_completeness auto
termination
  by (relation "measures [\<lambda>(a, b). 2 ^ 52 * b - a, \<lambda>(a, b). a + 1 - 2 ^ 52 * b]") auto

definition round_half_even :: "nat \<Rightarrow> nat \<Rightarrow> nat" where
  "round_half_even a b =
     (let q = a div b; r = a mod b
      in if 2 * r < b then q
         else if b < 2 * r then q + 1
         else if even q then q else q + 1)"

definition double_div :: "nat \<Rightarrow> nat \<Rightarrow> nat \<times> nat" where
  "double_div a b =
     (let (a1, b1) = scale53 a b;
          m = round_half_even a1 b1
      in (m * a * b1, a1 * b))"

definition toFixed1 :: "nat \<times> nat \<Rightarrow> nat" where
  "toFixed1 x = (case x of (p, q) \<Rightarrow> (20 * p + q) div (2 * q))"

subsection \<open>The middleware\<close>

text \<open>\<open>userAgent.includes(agent)\<close>: \<open>agent\<close> occurs in \<open>userAgent\<close> at some position.\<close>

definition str_includes :: "string \<Rightarrow> string \<Rightarrow> bool" where
  "str_includes s pat = list_ex (\<lambda>i. take (length pat) (drop i s) = pat) [0..<Suc (length s)]"

text \<open>What a stored value is worth in a condition, after the client has deserialised
  it.\<close>

fun truthy :: "rval option \<Rightarrow> bool" where
  "truthy None = False"
| "truthy (Some (Num n)) = (n \<noteq> 0)"
| "truthy (Some (Str t)) = (t \<noteq> [] \<and> t \<noteq> ''false'' \<and> t \<noteq> ''null'')"

text \<open>The constants that \<open>middleware\<close> binds first. \<open>client_ip\<close> is
  \<open>request.ip ?? '127.0.0.1'\<close>, \<open>userAgent\<close> is
  \<open>request.headers.get('user-agent') || ''\<close>, \<open>blockedCountry\<close> is the country when
  \<open>country && BLOCKED_COUNTRIES.includes(country)\<close> holds. The two lists are
  arguments, so that a statement can vary them; the module's own function is
  \<open>middleware BLOCKED_COUNTRIES ALLOWED_USER_AGENTS\<close>.\<close>

definition client_ip :: "request \<Rightarrow> string" where
  "client_ip request = (case ip request of None \<Rightarrow> ''127.0.0.1'' | Some a \<Rightarrow> a)"

definition userAgent :: "request \<Rightarrow> string" where
  "userAgent request = (case user_agent request of None \<Rightarrow> [] | Some u \<Rightarrow> u)"

definition blockedCountry :: "string list \<Rightarrow> request \<Rightarrow> string option" where
  "blockedCountry blocked_countries request =
     (case geo_country request of
        None \<Rightarrow> None
      | Some country \<Rightarrow>
          if country \<noteq> [] \<and> country \<in> set blocked_countries then Some country else None)"

definition isAllowedUserAgent :: "string list \<Rightarrow> request \<Rightarrow> bool" where
  "isAllowedUserAgent allowed_user_agents request =
     list_ex (\<lambda>agent. str_includes (userAgent request) agent) allowed_user_agents"

text \<open>The alert that step 4 composes: \<open>passedRequests = totalRequests -
  blockedRequests\<close> and \<open>attackStrength = (totalRequests /
  ATTACK_TIME_WINDOW_SECONDS).toFixed(1)\<close>. It is composed only for a total above the
  threshold, which is positive.\<close>

definition message :: "counters \<Rightarrow> alert" where
  "message c =
     \<lparr>attackStrength =
        (case totalRequests c of
           Fin t \<Rightarrow> toFixed1 (double_div (nat t) ATTACK_TIME_WINDOW_SECONDS)
         | NaN \<Rightarrow> 0),
      alert_totalRequests = totalRequests c,
      alert_blockedRequests = blockedRequests c,
      passedRequests = number_minus (totalRequests c) (blockedRequests c)\<rparr>"

text \<open>Step 4 of \<open>middleware\<close>, the attack detector, which every request that passed
  the checks runs.\<close>

definition attackDetector :: "env \<Rightarrow> ('l, response) promise" where
  "attackDetector ev =
     await (getAttackCounters ev)
       (\<lambda>c.
          if number_gt (totalRequests c) ATTACK_THRESHOLD then
            await (redis_get ev ''notification_sent_flag'')
              (\<lambda>notificationSent.
                 if \<not> truthy notificationSent then
                   (\<lambda>w. await
                           (redis_set ev ''notification_sent_flag'' ''true''
                              ATTACK_TIME_WINDOW_SECONDS)
                           (\<lambda>u. resolve NextResponse_next)
                           (sendTelegramMessage ev (message c) w))
                 else resolve NextResponse_next)
          else resolve NextResponse_next)"

definition middleware ::
  "string list \<Rightarrow> string list \<Rightarrow> 'l limit \<Rightarrow> env \<Rightarrow> request \<Rightarrow> ('l, response) promise" where
  "middleware blocked_countries allowed_user_agents rl ev request =
     (if \<not> redis_configured ev then resolve NextResponse_next
      else
        case blockedCountry blocked_countries request of
          Some country \<Rightarrow>
            await (incrementBlockedCounter ev)
              (\<lambda>u. resolve
                     (NextResponse (''Access from country '' @ country @ '' is denied.'') 403))
        | None \<Rightarrow>
            if \<not> isAllowedUserAgent allowed_user_agents request then
              await (incrementBlockedCounter ev)
                (\<lambda>u. resolve (NextResponse ''Your browser or bot is not allowed.'' 403))
            else
              await (ratelimit_limit rl ev (client_ip request))
                (\<lambda>success.
                   if \<not> success then
                     await (incrementBlockedCounter ev)
                       (\<lambda>u. resolve
                              (NextResponse ''Too many requests. Please try again later.'' 429))
                   else attackDetector ev))"

subsection \<open>The rate limiter and a run of requests\<close>

text \<open>Modelled from the spec: the rate limiter behind \<open>ratelimit.limit\<close>, which is
  \<open>Ratelimit.slidingWindow(requests, window)\<close> of the \<open>@upstash/ratelimit\<close> package and
  not part of \<open>middleware.ts\<close>. The spec (4.2) asks for a per-key sliding window with
  a fixed capacity: \<open>admit\<close> returns false when the key's count in the current window
  would exceed the capacity, otherwise it counts the request and returns true. The
  state keeps, per key, the times of the requests admitted in the trailing window.\<close>

type_synonym limiter_state = "string \<Rightarrow> nat list"

definition slidingWindow :: "nat \<Rightarrow> nat \<Rightarrow> limiter_state limit" where
  "slidingWindow tokens window st now k =
     (let recent = filter (\<lambda>t. now < t + window) (st k)
      in if length recent < tokens then (True, st(k := now # recent))
         else (False, st(k := recent)))"

definition ratelimit :: "limiter_state limit" where
  "ratelimit = slidingWindow INDIVIDUAL_RATE_LIMIT_requests INDIVIDUAL_RATE_LIMIT_window"

text \<open>The server hands requests to the middleware one after the other; each entry
  is a request and the time that passes before it arrives.\<close>

fun serve ::
  "'l limit \<Rightarrow> env \<Rightarrow> (nat \<times> request) list \<Rightarrow> 'l world \<Rightarrow> (error + response) list \<times> 'l world"
  where
  "serve rl ev [] w = ([], w)"
| "serve rl ev ((d, request) # rest) w =
     (let (r, w1) = middleware BLOCKED_COUNTRIES ALLOWED_USER_AGENTS rl ev request (elapse d w);
          (rs, w2) = serve rl ev rest w1
      in (r # rs, w2))"

subsection \<open>Vocabulary of the statements\<close>

text \<open>A counter key can take \<open>n\<close> more increments: it is absent, or holds an integer
  with that much room below the top of the signed 64-bit range.\<close>

definition can_incr :: "nat \<Rightarrow> store \<Rightarrow> key \<Rightarrow> bool" where
  "can_incr n s k =
     (case s k of
        None \<Rightarrow> True
      | Some e \<Rightarrow> (case val e of Num v \<Rightarrow> v + int n < 2 ^ 63 | Str t \<Rightarrow> False))"

text \<open>A counter key holds a count: it is absent or holds a non-negative integer,
  which is all that \<open>INCR\<close> on a fresh key ever produces.\<close>

definition holds_count :: "store \<Rightarrow> key \<Rightarrow> bool" where
  "holds_count s k =
     (case s k of None \<Rightarrow> True | Some e \<Rightarrow> (case val e of Num v \<Rightarrow> 0 \<le> v | Str t \<Rightarrow> False))"

text \<open>\<open>writes_text k c\<close>: the command \<open>c\<close> overwrites key \<open>k\<close> with a text value.
  \<open>counts_ok\<close>: both counter keys hold counts.\<close>

fun writes_text :: "key \<Rightarrow> cmd \<Rightarrow> bool" where
  "writes_text k (SET_EX k' v secs) = (k = k')"
| "writes_text k c = False"

definition counts_ok :: "store \<Rightarrow> bool" where
  "counts_ok s = (holds_count s totalKey \<and> holds_count s blockedKey)"

text \<open>The commands an event sent to Redis, and how many of them are \<open>INCR k\<close>.\<close>

fun event_cmds :: "event \<Rightarrow> cmd list" where
  "event_cmds (Redis cs) = cs"
| "event_cmds e = []"

definition incrs :: "key \<Rightarrow> event list \<Rightarrow> nat" where
  "incrs k es = count_list (concat (map event_cmds es)) (INCR k)"

text \<open>The events that are calls to the store. \<open>stops_at_failure\<close>: the trace only
  grows, and a call to the store that is rejected with an error is the last event, with
  the promise of the caller rejected.\<close>

fun is_store_call :: "event \<Rightarrow> bool" where
  "is_store_call (Redis cs) = True"
| "is_store_call (Limit k) = True"
| "is_store_call e = False"

definition stops_at_failure :: "env \<Rightarrow> 'l world \<Rightarrow> (error + 'a) \<times> 'l world \<Rightarrow> bool" where
  "stops_at_failure ev w res =
     (\<exists>es. events (snd res) = events w @ es \<and>
        (\<forall>j < length es. is_store_call (es ! j) \<and> fails ev (length (events w) + j) \<longrightarrow>
           fst res = Inl StoreError \<and> Suc j = length es))"

text \<open>From \<open>w\<close> to \<open>w'\<close> the trace grew by calls to the store only: nothing was
  posted and nothing was logged.\<close>

definition only_store_calls :: "'l world \<Rightarrow> 'l world \<Rightarrow> bool" where
  "only_store_calls w w' = (\<exists>es. events w' = events w @ es \<and> (\<forall>e \<in> set es. is_store_call e))"

text \<open>\<open>flag_set n s\<close>: the notification flag is set to \<open>true\<close> and has at least \<open>n\<close>
  milliseconds to live. \<open>cmd_key\<close>: the key a command works on.\<close>

definition flag_set :: "nat \<Rightarrow> store \<Rightarrow> bool" where
  "flag_set n s =
     (\<exists>t. s ''notification_sent_flag'' = Some \<lparr>val = Str ''true'', ttl = Some t\<rparr> \<and> n \<le> t)"

fun cmd_key :: "cmd \<Rightarrow> key" where
  "cmd_key (INCR k) = k"
| "cmd_key (EXPIRE_NX k secs) = k"
| "cmd_key (GET k) = k"
| "cmd_key (SET_EX k v secs) = k"

subsection \<open>Example inputs\<close>

definition example_env :: env where
  "example_env =
     \<lparr>redis_configured = True, TELEGRAM_BOT_TOKEN = Some ''123:abc'',
      TELEGRAM_CHAT_ID = Some ''42'', fails = (\<lambda>i. False), fetch_rejects = False,
      read_delay = 0\<rparr>"

definition always_admit :: "unit limit" where
  "always_admit l now k = (True, l)"

definition empty_world :: "unit world" where
  "empty_world = \<lparr>store = Map.empty, limiter = (), clock = 0, events = []\<rparr>"

definition request_RU :: request where
  "request_RU =
     \<lparr>ip = Some ''203.0.113.7'', geo_country = Some ''RU'',
      user_agent = Some ''Mozilla/5.0 Chrome/120.0''\<rparr>"

definition request_curl :: request where
  "request_curl = \<lparr>ip = Some ''198.51.100.9'', geo_country = None, user_agent = Some ''curl/8.0''\<rparr>"

definition failing_env :: env where
  "failing_env = example_env\<lparr>fails := (\<lambda>i. True)\<rparr>"

definition request_chrome :: request where
  "request_chrome =
     \<lparr>ip = Some ''192.0.2.1'', geo_country = Some ''US'',
      user_agent = Some ''Mozilla/5.0 Chrome/120.0''\<rparr>"

definition late_env :: env where
  "late_env = example_env\<lparr>read_delay := 10\<rparr>"

definition expiring_world :: "unit world" where
  "expiring_world =
     \<lparr>store = [totalKey \<mapsto> \<lparr>val = Num 7, ttl = Some 5\<rparr>], limiter = (), clock = 1000,
      events = []\<rparr>"

definition busy_world :: "unit world" where
  "busy_world =
     \<lparr>store = [totalKey \<mapsto> \<lparr>val = Num 10000, ttl = Some 5000\<rparr>,
               blockedKey \<mapsto> \<lparr>val = Num 250, ttl = Some 5000\<rparr>],
      limiter = (), clock = 55000, events = []\<rparr>"

definition silent_env :: env where
  "silent_env = example_env\<lparr>TELEGRAM_BOT_TOKEN := None\<rparr>"

definition fresh_world :: "limiter_state world" where
  "fresh_world = \<lparr>store = Map.empty, limiter = (\<lambda>k. []), clock = 0, events = []\<rparr>"

definition eleven_requests :: "(nat \<times> request) list" where
  "eleven_requests = replicate 11 (100, request_chrome)"

definition later_requests :: "(nat \<times> request) list" where
  "later_requests = [(1000, request_chrome), (2000, request_RU), (30000, request_chrome)]"

definition unconfigured_env :: env where
  "unconfigured_env = example_env\<lparr>redis_configured := False\<rparr>"

section \<open>Basic facts\<close>

lemma await_Inl: "m w = (Inl e, w1) \<Longrightarrow> await m f w = (Inl e, w1)"
  by (simp add: await_def)

lemma await_Inr: "m w = (Inr a, w1) \<Longrightarrow> await m f w = f a w1"
  by (simp add: await_def)

lemma incr_ok: "can_incr (Suc n) s k \<Longrightarrow> fst (incr k s) \<noteq> RErr"
  by (auto simp: incr_def can_incr_def split: option.splits rval.splits)

lemma redis_call_fails:
  "fails ev (length (events w)) \<Longrightarrow>
   redis_call ev cs w = (Inl StoreError, w\<lparr>events := events w @ [Redis cs]\<rparr>)"
  by (simp add: redis_call_def)

lemma redis_call_ok:
  "\<not> fails ev (length (events w)) \<Longrightarrow> exec_cmds cs (store w) = (rs, s) \<Longrightarrow> RErr \<notin> set rs \<Longrightarrow>
   redis_call ev cs w = (Inr rs, w\<lparr>events := events w @ [Redis cs], store := s\<rparr>)"
  by (simp add: redis_call_def)

lemma incrementBlockedCounter_ok:
  assumes "\<not> fails ev (length (events w))" and "can_incr (Suc 0) (store w) ''attack:blocked''"
  shows "incrementBlockedCounter ev w =
     (Inr (), w\<lparr>events := events w @ [Redis [INCR ''attack:blocked'']],
               store := snd (incr ''attack:blocked'' (store w))\<rparr>)"
proof -
  obtain r s where rs: "incr ''attack:blocked'' (store w) = (r, s)"
    by (cases "incr ''attack:blocked'' (store w)")
  with incr_ok[OF assms(2)] have "r \<noteq> RErr" by simp
  with rs assms(1) show ?thesis
    by (auto simp: incrementBlockedCounter_def await_def redis_call_def resolve_def Let_def)
qed

lemma incrementBlockedCounter_fails:
  "fails ev (length (events w)) \<Longrightarrow>
   incrementBlockedCounter ev w =
     (Inl StoreError, w\<lparr>events := events w @ [Redis [INCR ''attack:blocked'']]\<rparr>)"
  by (simp add: incrementBlockedCounter_def await_def redis_call_def)

lemma str_includes_pos:
  "str_includes s pat \<longleftrightarrow> (\<exists>i. i \<le> length s \<and> take (length pat) (drop i s) = pat)"
proof -
  have "set [0..<Suc (length s)] = {i. i \<le> length s}" by auto
  then show ?thesis unfolding str_includes_def list_ex_iff by blast
qed

text \<open>\<open>str_includes\<close> is the substring test.\<close>

lemma str_includes_iff: "str_includes s pat \<longleftrightarrow> (\<exists>p q. s = p @ pat @ q)"
proof
  assume "str_includes s pat"
  then obtain i where i: "i \<le> length s" "take (length pat) (drop i s) = pat"
    unfolding str_includes_pos by blast
  have "s = take i s @ take (length pat) (drop i s) @ drop (length pat) (drop i s)"
    by (simp only: append_take_drop_id)
  with i show "\<exists>p q. s = p @ pat @ q" by metis
next
  assume "\<exists>p q. s = p @ pat @ q"
  then obtain p q where "s = p @ pat @ q" by blast
  then have "length p \<le> length s \<and> take (length pat) (drop (length p) s) = pat"
    by simp
  then show "str_includes s pat"
    unfolding str_includes_pos by blast
qed

lemma mw_country:
  "redis_configured ev \<Longrightarrow> blockedCountry bc request = Some c \<Longrightarrow>
   middleware bc ua rl ev request =
     await (incrementBlockedCounter ev)
       (\<lambda>u. resolve (NextResponse (''Access from country '' @ c @ '' is denied.'') 403))"
  by (simp add: middleware_def)

lemma mw_identity:
  "redis_configured ev \<Longrightarrow> blockedCountry bc request = None \<Longrightarrow>
   \<not> isAllowedUserAgent ua request \<Longrightarrow>
   middleware bc ua rl ev request =
     await (incrementBlockedCounter ev)
       (\<lambda>u. resolve (NextResponse ''Your browser or bot is not allowed.'' 403))"
  by (simp add: middleware_def)

lemma mw_limit:
  "redis_configured ev \<Longrightarrow> blockedCountry bc request = None \<Longrightarrow>
   isAllowedUserAgent ua request \<Longrightarrow>
   middleware bc ua rl ev request =
     await (ratelimit_limit rl ev (client_ip request))
       (\<lambda>success.
          if \<not> success then
            await (incrementBlockedCounter ev)
              (\<lambda>u. resolve (NextResponse ''Too many requests. Please try again later.'' 429))
          else attackDetector ev)"
  by (simp add: middleware_def)

lemma error_is_StoreError: "(e :: error) = StoreError"
  by (cases e) simp

lemma await_resolve_outcome:
  "fst (await m (\<lambda>u. resolve r) w) = Inl StoreError \<or> fst (await m (\<lambda>u. resolve r) w) = Inr r"
  by (auto simp: await_def resolve_def error_is_StoreError split: prod.splits sum.splits)

lemma attackDetector_outcome:
  "fst (attackDetector ev w) = Inl StoreError \<or> fst (attackDetector ev w) = Inr NextResponse_next"
  by (auto simp: attackDetector_def await_def resolve_def error_is_StoreError Let_def
           split: prod.splits sum.splits)

lemma mw_outcome_allowed:
  assumes "redis_configured ev" "blockedCountry bc request = None" "isAllowedUserAgent ua request"
  shows "fst (middleware bc ua rl ev request w) \<in>
     {Inl StoreError, Inr NextResponse_next,
      Inr (NextResponse ''Too many requests. Please try again later.'' 429)}"
proof (cases "ratelimit_limit rl ev (client_ip request) w")
  case (Pair r w1)
  show ?thesis
  proof (cases r)
    case (Inl e)
    with Pair assms show ?thesis
      by (simp add: mw_limit await_def error_is_StoreError)
  next
    case (Inr success)
    with Pair assms attackDetector_outcome[of ev w1]
      await_resolve_outcome[of "incrementBlockedCounter ev"
        "NextResponse ''Too many requests. Please try again later.'' 429" w1]
    show ?thesis
      by (auto simp: mw_limit await_Inr)
  qed
qed

lemma blockedCountry_module:
  "blockedCountry BLOCKED_COUNTRIES request = Some c \<longleftrightarrow>
   geo_country request = Some c \<and> c \<in> set BLOCKED_COUNTRIES"
  by (auto simp: blockedCountry_def BLOCKED_COUNTRIES_def split: option.splits)

lemma isAllowedUserAgent_iff:
  "isAllowedUserAgent ua request \<longleftrightarrow>
   (\<exists>agent \<in> set ua. \<exists>p q. userAgent request = p @ agent @ q)"
  by (simp add: isAllowedUserAgent_def list_ex_iff str_includes_iff)

lemma isAllowedUserAgent_set:
  "set ua' = set ua \<Longrightarrow> isAllowedUserAgent ua' request = isAllowedUserAgent ua request"
  by (simp add: isAllowedUserAgent_iff)

lemma empty_userAgent_not_allowed:
  "userAgent request = [] \<Longrightarrow> \<not> isAllowedUserAgent ALLOWED_USER_AGENTS request"
  by (simp add: isAllowedUserAgent_iff ALLOWED_USER_AGENTS_def)

lemma stops_resolve: "stops_at_failure ev w (resolve a w)"
  by (simp add: stops_at_failure_def resolve_def)

lemma stops_redis_call: "stops_at_failure ev w (redis_call ev cs w)"
  by (auto simp: stops_at_failure_def redis_call_def Let_def split: prod.splits)

lemma stops_ratelimit_limit: "stops_at_failure ev w (ratelimit_limit rl ev k w)"
  by (auto simp: stops_at_failure_def ratelimit_limit_def Let_def split: prod.splits)

lemma stops_await:
  assumes m: "stops_at_failure ev w (m w)"
    and f: "\<And>a w1. m w = (Inr a, w1) \<Longrightarrow> stops_at_failure ev w1 (f a w1)"
  shows "stops_at_failure ev w (await m f w)"
proof (cases "m w")
  case (Pair r w1)
  show ?thesis
  proof (cases r)
    case (Inl e)
    with Pair m show ?thesis by (simp add: await_def stops_at_failure_def)
  next
    case (Inr a)
    with Pair have mw: "m w = (Inr a, w1)" by simp
    from m mw obtain es1 where es1: "events w1 = events w @ es1"
      and ok1: "\<forall>j < length es1. \<not> (is_store_call (es1 ! j) \<and> fails ev (length (events w) + j))"
      by (auto simp: stops_at_failure_def)
    from f[OF mw] obtain es2 where es2: "events (snd (f a w1)) = events w1 @ es2"
      and ok2: "\<forall>j < length es2. is_store_call (es2 ! j) \<and> fails ev (length (events w1) + j) \<longrightarrow>
           fst (f a w1) = Inl StoreError \<and> Suc j = length es2"
      by (auto simp: stops_at_failure_def)
    have "\<forall>j < length (es1 @ es2).
            is_store_call ((es1 @ es2) ! j) \<and> fails ev (length (events w) + j) \<longrightarrow>
            fst (f a w1) = Inl StoreError \<and> Suc j = length (es1 @ es2)"
    proof (intro allI impI)
      fix j assume j: "j < length (es1 @ es2)"
        and bad: "is_store_call ((es1 @ es2) ! j) \<and> fails ev (length (events w) + j)"
      show "fst (f a w1) = Inl StoreError \<and> Suc j = length (es1 @ es2)"
      proof (cases "j < length es1")
        case True
        with bad ok1 show ?thesis by (simp add: nth_append)
      next
        case False
        with j have j2: "j - length es1 < length es2" by simp
        from False bad es1 have "is_store_call (es2 ! (j - length es1)) \<and>
            fails ev (length (events w1) + (j - length es1))"
          by (simp add: nth_append)
        with ok2 j2 have "fst (f a w1) = Inl StoreError \<and> Suc (j - length es1) = length es2"
          by blast
        with False show ?thesis by auto
      qed
    qed
    with es1 es2 show ?thesis
      unfolding stops_at_failure_def await_Inr[of m, OF mw] by auto
  qed
qed

lemma stops_same_events:
  "events w2 = events w1 \<Longrightarrow> stops_at_failure ev w2 res \<Longrightarrow> stops_at_failure ev w1 res"
  by (simp add: stops_at_failure_def)

lemma stops_prefix:
  assumes ext: "events w1 = events w @ es0" and quiet: "\<forall>e \<in> set es0. \<not> is_store_call e"
    and st: "stops_at_failure ev w1 res"
  shows "stops_at_failure ev w res"
proof -
  from st obtain es where es: "events (snd res) = events w1 @ es"
    and ok: "\<forall>j < length es. is_store_call (es ! j) \<and> fails ev (length (events w1) + j) \<longrightarrow>
           fst res = Inl StoreError \<and> Suc j = length es"
    by (auto simp: stops_at_failure_def)
  have "\<forall>j < length (es0 @ es).
          is_store_call ((es0 @ es) ! j) \<and> fails ev (length (events w) + j) \<longrightarrow>
          fst res = Inl StoreError \<and> Suc j = length (es0 @ es)"
  proof (intro allI impI)
    fix j assume j: "j < length (es0 @ es)"
      and bad: "is_store_call ((es0 @ es) ! j) \<and> fails ev (length (events w) + j)"
    show "fst res = Inl StoreError \<and> Suc j = length (es0 @ es)"
    proof (cases "j < length es0")
      case True
      with bad quiet show ?thesis by (auto simp: nth_append)
    next
      case False
      with j have j2: "j - length es0 < length es" by simp
      from False bad ext have "is_store_call (es ! (j - length es0)) \<and>
          fails ev (length (events w1) + (j - length es0))"
        by (simp add: nth_append)
      with ok j2 have "fst res = Inl StoreError \<and> Suc (j - length es0) = length es"
        by blast
      with False show ?thesis by auto
    qed
  qed
  with ext es show ?thesis
    unfolding stops_at_failure_def by auto
qed

lemma sendTelegramMessage_frame:
  "sendTelegramMessage ev m w = w\<lparr>events := events (sendTelegramMessage ev m w)\<rparr>"
  by (simp add: sendTelegramMessage_def Let_def split: option.splits)

lemma sendTelegramMessage_events:
  "\<exists>es. events (sendTelegramMessage ev m w) = events w @ es \<and>
        (\<forall>e \<in> set es. \<not> is_store_call e)"
  by (simp add: sendTelegramMessage_def Let_def split: option.splits)

lemma stops_incrementBlockedCounter: "stops_at_failure ev w (incrementBlockedCounter ev w)"
  unfolding incrementBlockedCounter_def
  by (intro stops_await stops_redis_call stops_resolve)

lemma stops_redis_get: "stops_at_failure ev w (redis_get ev k w)"
  unfolding redis_get_def
  by (intro stops_await stops_redis_call stops_resolve)

lemma stops_redis_set: "stops_at_failure ev w (redis_set ev k v secs w)"
  unfolding redis_set_def
  by (intro stops_await stops_redis_call stops_resolve)

lemma stops_getAttackCounters: "stops_at_failure ev w (getAttackCounters ev w)"
  unfolding getAttackCounters_def Let_def
proof (rule stops_await[OF stops_redis_call])
  fix rs and w1 :: "'a world"
  have "events (elapse (read_delay ev) w1) = events w1" by (simp add: elapse_def)
  then show "stops_at_failure ev w1
     (await (redis_get ev totalKey)
        (\<lambda>t. resolve
               \<lparr>totalRequests = (case t of None \<Rightarrow> Fin 1 | Some v \<Rightarrow> as_number v),
                blockedRequests =
                  (case case rs of [r0, r1, RBulk b, r3] \<Rightarrow> b | _ \<Rightarrow> None of
                     None \<Rightarrow> Fin 0 | Some v \<Rightarrow> as_number v)\<rparr>)
        (elapse (read_delay ev) w1))"
    by (rule stops_same_events) (intro stops_await stops_redis_get stops_resolve)
qed

lemma stops_attackDetector: "stops_at_failure ev w (attackDetector ev w)"
  unfolding attackDetector_def
proof (rule stops_await[OF stops_getAttackCounters], goal_cases)
  case (1 c w1)
  show ?case
  proof (cases "number_gt (totalRequests c) ATTACK_THRESHOLD")
    case False
    then show ?thesis by (simp add: stops_resolve)
  next
    case True
    have "stops_at_failure ev w1
       (await (redis_get ev ''notification_sent_flag'')
          (\<lambda>notificationSent.
             if \<not> truthy notificationSent
             then \<lambda>w. await (redis_set ev ''notification_sent_flag'' ''true''
                              ATTACK_TIME_WINDOW_SECONDS)
                        (\<lambda>u. resolve NextResponse_next)
                        (sendTelegramMessage ev msg w)
             else resolve NextResponse_next) w1)" for msg
    proof (rule stops_await[OF stops_redis_get], goal_cases)
      case (1 flag w2)
      obtain es where es: "events (sendTelegramMessage ev msg w2) = events w2 @ es"
        "\<forall>e \<in> set es. \<not> is_store_call e"
        using sendTelegramMessage_events by blast
      have "stops_at_failure ev w2
         (await (redis_set ev ''notification_sent_flag'' ''true'' ATTACK_TIME_WINDOW_SECONDS)
            (\<lambda>u. resolve NextResponse_next) (sendTelegramMessage ev msg w2))"
        by (rule stops_prefix[OF es]) (intro stops_await stops_redis_set stops_resolve)
      then show ?case by (simp add: stops_resolve)
    qed
    with True show ?thesis by simp
  qed
qed

lemma stops_middleware: "stops_at_failure ev w (middleware bc ua rl ev request w)"
proof -
  have deny: "stops_at_failure ev w0 (await (incrementBlockedCounter ev) (\<lambda>u. resolve r) w0)"
    for r :: response and w0 :: "'a world"
    by (intro stops_await stops_incrementBlockedCounter stops_resolve)
  have "stops_at_failure ev w
     (await (ratelimit_limit rl ev (client_ip request))
        (\<lambda>success.
           if \<not> success then
             await (incrementBlockedCounter ev)
               (\<lambda>u. resolve (NextResponse ''Too many requests. Please try again later.'' 429))
           else attackDetector ev) w)"
    by (rule stops_await[OF stops_ratelimit_limit]) (simp add: deny stops_attackDetector)
  then show ?thesis
    by (simp add: middleware_def stops_resolve deny split: option.splits)
qed

lemma keys_distinct [simp]: "totalKey \<noteq> blockedKey" "blockedKey \<noteq> totalKey"
  by (simp_all add: totalKey_def blockedKey_def)

lemma expire_nx_reply: "\<exists>a. fst (expire_nx k secs s) = RInt a"
  by (simp add: expire_nx_def split: option.splits)

lemma expire_nx_other: "k' \<noteq> k \<Longrightarrow> snd (expire_nx k secs s) k' = s k'"
  by (simp add: expire_nx_def split: option.splits)

lemma expire_nx_val: "map_option val (snd (expire_nx k secs s) k') = map_option val (s k')"
  by (simp add: expire_nx_def split: option.splits)

lemma incr_other: "k' \<noteq> k \<Longrightarrow> snd (incr k s) k' = s k'"
  by (simp add: incr_def split: option.splits rval.splits)

lemma pipe_replies:
  "\<exists>a b. fst (exec_cmds pipe s) =
           [fst (incr totalKey s), RInt a, RBulk (map_option val (s blockedKey)), RInt b]"
proof -
  obtain r s1 where i: "incr totalKey s = (r, s1)" by (cases "incr totalKey s")
  then have s1: "s1 blockedKey = s blockedKey"
    using incr_other[of blockedKey totalKey s] by simp
  obtain r1 s2 where e1: "expire_nx totalKey ATTACK_TIME_WINDOW_SECONDS s1 = (r1, s2)"
    by (cases "expire_nx totalKey ATTACK_TIME_WINDOW_SECONDS s1")
  then have s2: "s2 blockedKey = s1 blockedKey"
    using expire_nx_other[of blockedKey totalKey ATTACK_TIME_WINDOW_SECONDS s1] by simp
  obtain r3 s3 where e3: "expire_nx blockedKey ATTACK_TIME_WINDOW_SECONDS s2 = (r3, s3)"
    by (cases "expire_nx blockedKey ATTACK_TIME_WINDOW_SECONDS s2")
  from e1 expire_nx_reply[of totalKey ATTACK_TIME_WINDOW_SECONDS s1]
  obtain a where a: "r1 = RInt a" by auto
  from e3 expire_nx_reply[of blockedKey ATTACK_TIME_WINDOW_SECONDS s2]
  obtain b where b: "r3 = RInt b" by auto
  from i e1 e3 s1 s2 a b show ?thesis
    by (simp add: pipe_def)
qed

lemma pipe_other:
  "k \<noteq> totalKey \<Longrightarrow> k \<noteq> blockedKey \<Longrightarrow> snd (exec_cmds pipe s) k = s k"
  by (simp add: pipe_def split_beta expire_nx_other incr_other)

lemma pipe_blocked_val:
  "map_option val (snd (exec_cmds pipe s) blockedKey) = map_option val (s blockedKey)"
  by (simp add: pipe_def split_beta expire_nx_val expire_nx_other incr_other)

lemma pipe_total_val:
  "map_option val (snd (exec_cmds pipe s) totalKey) = map_option val (snd (incr totalKey s) totalKey)"
  by (simp add: pipe_def split_beta expire_nx_val expire_nx_other)

lemma redis_get_ok:
  "\<not> fails ev (length (events w)) \<Longrightarrow>
   redis_get ev k w = (Inr (map_option val (store w k)), w\<lparr>events := events w @ [Redis [GET k]]\<rparr>)"
  by (simp add: redis_get_def await_def redis_call_def resolve_def)

lemma redis_set_ok:
  "\<not> fails ev (length (events w)) \<Longrightarrow>
   redis_set ev k v secs w =
     (Inr (), w\<lparr>events := events w @ [Redis [SET_EX k v secs]],
               store := (store w)(k \<mapsto> \<lparr>val = Str v, ttl = Some (secs * 1000)\<rparr>)\<rparr>)"
  by (simp add: redis_set_def await_def redis_call_def resolve_def set_ex_def)

lemma getAttackCounters_ok:
  assumes ok1: "\<not> fails ev (length (events w))"
    and ok2: "\<not> fails ev (Suc (length (events w)))"
    and total: "can_incr (Suc 0) (store w) totalKey"
  shows "getAttackCounters ev w =
     (Inr \<lparr>totalRequests =
             (case age (read_delay ev) (snd (exec_cmds pipe (store w))) totalKey of
                None \<Rightarrow> Fin 1 | Some e \<Rightarrow> as_number (val e)),
           blockedRequests =
             (case store w blockedKey of None \<Rightarrow> Fin 0 | Some e \<Rightarrow> as_number (val e))\<rparr>,
      w\<lparr>events := events w @ [Redis pipe, Redis [GET totalKey]],
        store := age (read_delay ev) (snd (exec_cmds pipe (store w))),
        clock := clock w + read_delay ev\<rparr>)"
proof -
  obtain rs s1 where ex: "exec_cmds pipe (store w) = (rs, s1)"
    by (cases "exec_cmds pipe (store w)")
  with pipe_replies[of "store w"] obtain a b where
    rs: "rs = [fst (incr totalKey (store w)), RInt a, RBulk (map_option val (store w blockedKey)), RInt b]"
    by auto
  with incr_ok[OF total] have "RErr \<notin> set rs" by auto
  from redis_call_ok[OF ok1 ex this]
  have 1: "redis_call ev pipe w = (Inr rs, w\<lparr>events := events w @ [Redis pipe], store := s1\<rparr>)" .
  have 2: "\<not> fails ev (length (events (elapse (read_delay ev)
              (w\<lparr>events := events w @ [Redis pipe], store := s1\<rparr>))))"
    using ok2 by (simp add: elapse_def)
  show ?thesis
    using ex
    by (simp add: getAttackCounters_def await_def 1 rs redis_get_ok[OF 2] resolve_def)
       (simp add: elapse_def split: option.splits)
qed

lemma age_val: "age d s k = Some e \<Longrightarrow> \<exists>e0. s k = Some e0 \<and> val e = val e0"
  by (auto simp: age_def split: option.splits if_splits)

lemma incr_val:
  "can_incr (Suc 0) s k \<Longrightarrow> holds_count s k \<Longrightarrow>
   \<exists>e v. snd (incr k s) k = Some e \<and> val e = Num v \<and> 1 \<le> v"
  by (auto simp: incr_def can_incr_def holds_count_def split: option.splits rval.splits)

lemma attackDetector_quiet:
  assumes "getAttackCounters ev w = (Inr c, w2)"
    and "\<not> number_gt (totalRequests c) ATTACK_THRESHOLD"
  shows "attackDetector ev w = (Inr NextResponse_next, w2)"
  using assms by (simp add: attackDetector_def await_def resolve_def)

lemma attackDetector_suppressed:
  assumes "getAttackCounters ev w = (Inr c, w2)"
    and "number_gt (totalRequests c) ATTACK_THRESHOLD"
    and "\<not> fails ev (length (events w2))"
    and "truthy (map_option val (store w2 ''notification_sent_flag''))"
  shows "attackDetector ev w =
     (Inr NextResponse_next, w2\<lparr>events := events w2 @ [Redis [GET ''notification_sent_flag'']]\<rparr>)"
  using assms by (simp add: attackDetector_def await_def redis_get_ok resolve_def)

lemma attackDetector_notifies:
  assumes "getAttackCounters ev w = (Inr c, w2)"
    and "number_gt (totalRequests c) ATTACK_THRESHOLD"
    and "\<not> fails ev (length (events w2))"
    and "\<not> truthy (map_option val (store w2 ''notification_sent_flag''))"
    and "sendTelegramMessage ev (message c)
           (w2\<lparr>events := events w2 @ [Redis [GET ''notification_sent_flag'']]\<rparr>) = w3"
    and "\<not> fails ev (length (events w3))"
  shows "attackDetector ev w =
     (Inr NextResponse_next,
      w3\<lparr>events := events w3 @
              [Redis [SET_EX ''notification_sent_flag'' ''true'' ATTACK_TIME_WINDOW_SECONDS]],
         store := (store w3)(''notification_sent_flag'' \<mapsto>
                    \<lparr>val = Str ''true'', ttl = Some (ATTACK_TIME_WINDOW_SECONDS * 1000)\<rparr>)\<rparr>)"
  using assms by (simp add: attackDetector_def await_def redis_get_ok redis_set_ok resolve_def)

lemma sendTelegramMessage_no_cmds:
  "\<exists>es. events (sendTelegramMessage ev m w) = events w @ es \<and> (\<forall>e \<in> set es. event_cmds e = [])"
  by (simp add: sendTelegramMessage_def Let_def split: option.splits)

lemma incrs_simps [simp]:
  "incrs k [] = 0"
  "incrs k (Redis cs # es) = count_list cs (INCR k) + incrs k es"
  "incrs k (Limit a # es) = incrs k es"
  by (simp_all add: incrs_def)

lemma incrs_append [simp]: "incrs k (es @ es') = incrs k es + incrs k es'"
  by (simp add: incrs_def)

lemma incrs_quiet: "\<forall>e \<in> set es. event_cmds e = [] \<Longrightarrow> incrs k es = 0"
  by (induction es) (auto simp: incrs_def)

lemma attackDetector_healthy:
  assumes ok: "\<forall>i. \<not> fails ev i" and room: "can_incr (Suc 0) (store w) totalKey"
  shows "\<exists>w' es. attackDetector ev w = (Inr NextResponse_next, w')
           \<and> events w' = events w @ es \<and> incrs totalKey es = 1 \<and> incrs blockedKey es = 0"
proof -
  from ok have ok1: "\<not> fails ev (length (events w))" and ok2: "\<not> fails ev (Suc (length (events w)))"
    by simp_all
  note G = getAttackCounters_ok[OF ok1 ok2 room]
  let ?c = "fst (getAttackCounters ev w)"
  obtain c w2 where cw: "getAttackCounters ev w = (Inr c, w2)"
    and e2: "events w2 = events w @ [Redis pipe, Redis [GET totalKey]]"
    using G by simp
  have p: "incrs totalKey [Redis pipe, Redis [GET totalKey]] = 1"
      "incrs blockedKey [Redis pipe, Redis [GET totalKey]] = 0"
    by (simp_all add: pipe_def)
  show ?thesis
  proof (cases "number_gt (totalRequests c) ATTACK_THRESHOLD")
    case False
    from attackDetector_quiet[OF cw False] e2 p show ?thesis by auto
  next
    case True
    from ok have f2: "\<not> fails ev (length (events w2))" by simp
    show ?thesis
    proof (cases "truthy (map_option val (store w2 ''notification_sent_flag''))")
      case t: True
      from attackDetector_suppressed[OF cw True f2 t] e2 p show ?thesis by auto
    next
      case f: False
      let ?w3 = "sendTelegramMessage ev (message c)
           (w2\<lparr>events := events w2 @ [Redis [GET ''notification_sent_flag'']]\<rparr>)"
      from ok have f3: "\<not> fails ev (length (events ?w3))" by simp
      obtain es where es: "events ?w3 = events w2 @ [Redis [GET ''notification_sent_flag'']] @ es"
        "\<forall>e \<in> set es. event_cmds e = []"
        using sendTelegramMessage_no_cmds[of ev "message c"
            "w2\<lparr>events := events w2 @ [Redis [GET ''notification_sent_flag'']]\<rparr>"] by auto
      from attackDetector_notifies[OF cw True f2 f refl f3] e2 es p incrs_quiet[OF es(2)]
      show ?thesis by auto
    qed
  qed
qed

lemma ratelimit_limit_ok:
  "\<not> fails ev (length (events w)) \<Longrightarrow> rl (limiter w) (clock w) k = (b, l) \<Longrightarrow>
   ratelimit_limit rl ev k w = (Inr b, w\<lparr>events := events w @ [Limit k], limiter := l\<rparr>)"
  by (simp add: ratelimit_limit_def)

lemma deny_ok:
  assumes "\<not> fails ev (length (events w))" and "can_incr (Suc 0) (store w) blockedKey"
  shows "await (incrementBlockedCounter ev) (\<lambda>u. resolve r) w =
     (Inr r, w\<lparr>events := events w @ [Redis [INCR blockedKey]],
              store := snd (incr blockedKey (store w))\<rparr>)"
  using assms
  by (simp add: await_def incrementBlockedCounter_ok resolve_def blockedKey_def)

text \<open>The printed strength is a tenth nearest to the exact quotient: \<open>s / 10\<close> is
  within \<open>1 / 20\<close> of \<open>n / 60\<close>, for every total that a JavaScript number holds
  exactly.\<close>

lemma scale53_reaches:
  "0 < a \<Longrightarrow> 0 < b \<Longrightarrow> a < 2 ^ 53 * b \<Longrightarrow>
   \<exists>a'. scale53 a b = (a', b) \<and> 2 ^ 52 * b \<le> a'"
proof (induction a b rule: scale53.induct)
  case (1 a b)
  show ?case
  proof (cases "a < 2 ^ 52 * b")
    case True
    with "1.prems" have "\<exists>a'. scale53 (2 * a) b = (a', b) \<and> 2 ^ 52 * b \<le> a'"
      by (intro "1.IH"(1)) auto
    with True "1.prems" show ?thesis
      by (subst scale53.simps) simp
  next
    case False
    with "1.prems" show ?thesis
      by (subst scale53.simps) simp
  qed
qed

lemma round_half_even_bounds:
  assumes "0 < b"
  shows "2 * (round_half_even a b * b) \<le> 2 * a + b \<and> 2 * a \<le> 2 * (round_half_even a b * b) + b"
proof -
  define q r where "q = a div b" and "r = a mod b"
  have a: "a = q * b + r" by (simp add: q_def r_def)
  have r: "r < b" using assms by (simp add: r_def)
  have "(round_half_even a b = q \<and> 2 * r \<le> b) \<or> (round_half_even a b = q + 1 \<and> b \<le> 2 * r)"
    by (auto simp: round_half_even_def Let_def q_def r_def)
  then show ?thesis
  proof
    assume "round_half_even a b = q \<and> 2 * r \<le> b"
    with a show ?thesis by simp
  next
    assume "round_half_even a b = q + 1 \<and> b \<le> 2 * r"
    with a r show ?thesis by (simp add: add_mult_distrib)
  qed
qed

lemma toFixed1_double_div_60:
  assumes n: "0 < n" "n < 2 ^ 53"
  shows "6 * toFixed1 (double_div n 60) \<le> n + 3 \<and> n \<le> 6 * toFixed1 (double_div n 60) + 3"
proof -
  have n60: "n < 2 ^ 53 * 60" using n by linarith
  have pos: "0 < (60::nat)" by simp
  from scale53_reaches[OF n(1) pos n60] obtain a where
    a: "scale53 n 60 = (a, 60)" "2 ^ 52 * 60 \<le> a"
    by blast
  define m where "m = round_half_even a 60"
  define s where "s = toFixed1 (double_div n 60)"
  from round_half_even_bounds[of 60 a] have m: "60 * m \<le> a + 30" "a \<le> 60 * m + 30"
    unfolding m_def by linarith+
  have p53: "(2::nat) ^ 53 = 9007199254740992" by simp
  have p52: "(2::nat) ^ 52 * 60 = 270215977642229760" by simp
  have big: "30 * n < a" using n a(2) unfolding p53 p52 by linarith
  have dd: "double_div n 60 = (m * n * 60, a * 60)"
    unfolding double_div_def a m_def by simp
  have apos: "0 < a" using big by linarith
  have "s = (60 * (20 * (m * n) + a)) div (60 * (2 * a))"
    unfolding s_def dd toFixed1_def by (simp add: algebra_simps)
  also have "\<dots> = (20 * (m * n) + a) div (2 * a)"
    by (rule div_mult_mult1) simp
  finally have s: "s = (20 * (m * n) + a) div (2 * a)" .
  have lo: "2 * a * s \<le> 20 * (m * n) + a"
    unfolding s by (rule times_div_less_eq_dividend)
  have hi: "20 * (m * n) + a < 2 * a * s + 2 * a"
  proof -
    have "(20 * (m * n) + a) mod (2 * a) < 2 * a" using apos by simp
    moreover have "20 * (m * n) + a = 2 * a * s + (20 * (m * n) + a) mod (2 * a)"
      unfolding s by simp
    ultimately show ?thesis by linarith
  qed
  have m1: "60 * (m * n) \<le> a * n + 30 * n"
    using mult_le_mono1[OF m(1), of n] by (simp add: algebra_simps)
  have m2: "a * n \<le> 60 * (m * n) + 30 * n"
    using mult_le_mono1[OF m(2), of n] by (simp add: algebra_simps)
  have "6 * (a * s) < a * n + 4 * a"
    using lo m1 big by linarith
  then have "a * (6 * s) < a * (n + 4)" by (simp add: algebra_simps)
  then have up: "6 * s < n + 4" using apos by simp
  have "a * n < 6 * (a * s) + 4 * a"
    using hi m2 big by linarith
  then have "a * n < a * (6 * s + 4)" by (simp add: algebra_simps)
  then have down: "n < 6 * s + 4" using apos by simp
  from up down show ?thesis unfolding s_def by linarith
qed

lemma sendTelegramMessage_ok:
  "TELEGRAM_BOT_TOKEN ev = Some token \<Longrightarrow> token \<noteq> [] \<Longrightarrow>
   TELEGRAM_CHAT_ID ev = Some chatId \<Longrightarrow> chatId \<noteq> [] \<Longrightarrow> \<not> fetch_rejects ev \<Longrightarrow>
   sendTelegramMessage ev m w = w\<lparr>events := events w @ [Fetch token chatId m]\<rparr>"
  by (simp add: sendTelegramMessage_def)

lemma mw_allowed:
  assumes conf: "redis_configured ev"
    and ok: "\<not> fails ev (length (events w))"
    and pass: "blockedCountry bc request = None" "isAllowedUserAgent ua request"
      "rl (limiter w) (clock w) (client_ip request) = (True, l)"
  shows "middleware bc ua rl ev request w =
     attackDetector ev (w\<lparr>events := events w @ [Limit (client_ip request)], limiter := l\<rparr>)"
  by (simp add: mw_limit[OF conf pass(1,2)]
        await_def[of "ratelimit_limit rl ev (client_ip request)"]
        ratelimit_limit_ok[where rl = rl and w = w and k = "client_ip request", OF ok pass(3)])

lemma only_refl: "only_store_calls w w"
  by (simp add: only_store_calls_def)

lemma only_trans:
  "only_store_calls w w1 \<Longrightarrow> only_store_calls w1 w2 \<Longrightarrow> only_store_calls w w2"
  by (auto simp: only_store_calls_def)

lemma only_same_events:
  "events w1' = events w1 \<Longrightarrow> only_store_calls w1' w2 \<Longrightarrow> only_store_calls w1 w2"
  by (simp add: only_store_calls_def)

lemma only_redis_call: "only_store_calls w (snd (redis_call ev cs w))"
  by (simp add: only_store_calls_def redis_call_def Let_def split: prod.splits)

lemma only_ratelimit_limit: "only_store_calls w (snd (ratelimit_limit rl ev k w))"
  by (simp add: only_store_calls_def ratelimit_limit_def Let_def split: prod.splits)

lemma only_resolve: "only_store_calls w (snd (resolve a w))"
  by (simp add: resolve_def only_refl)

lemma only_await:
  assumes m: "only_store_calls w (snd (m w))"
    and f: "\<And>a w1. m w = (Inr a, w1) \<Longrightarrow> only_store_calls w1 (snd (f a w1))"
  shows "only_store_calls w (snd (await m f w))"
proof (cases "m w")
  case (Pair r w1)
  show ?thesis
  proof (cases r)
    case (Inl e)
    with Pair m show ?thesis by (simp add: await_def)
  next
    case (Inr a)
    with Pair have mw: "m w = (Inr a, w1)" by simp
    from m mw have "only_store_calls w w1" by simp
    from only_trans[OF this f[OF mw]] mw show ?thesis by (simp add: await_def)
  qed
qed

lemma only_incrementBlockedCounter: "only_store_calls w (snd (incrementBlockedCounter ev w))"
  unfolding incrementBlockedCounter_def
  by (intro only_await only_redis_call only_resolve)

lemma only_redis_get: "only_store_calls w (snd (redis_get ev k w))"
  unfolding redis_get_def
  by (intro only_await only_redis_call only_resolve)

lemma redis_call_GET:
  "redis_call ev [GET k] w = (Inr rs, w1) \<Longrightarrow>
   rs = [RBulk (map_option val (store w k))] \<and> store w1 = store w"
  by (auto simp: redis_call_def Let_def split: if_splits)

lemma redis_get_value:
  "redis_get ev k w = (Inr v, w1) \<Longrightarrow> v = map_option val (store w k) \<and> store w1 = store w"
  by (auto simp: redis_get_def await_def resolve_def split: prod.splits sum.splits
        dest!: redis_call_GET)

lemma only_getAttackCounters: "only_store_calls w (snd (getAttackCounters ev w))"
  unfolding getAttackCounters_def
proof (rule only_await[OF only_redis_call], goal_cases)
  case (1 rs w1)
  have "events (elapse (read_delay ev) w1) = events w1" by (simp add: elapse_def)
  then show ?case
    unfolding Let_def
    by (rule only_same_events) (intro only_await only_redis_get only_resolve)
qed

lemma redis_call_store:
  "redis_call ev cs w = (Inr rs, w1) \<Longrightarrow> store w1 = snd (exec_cmds cs (store w))"
  by (auto simp: redis_call_def Let_def split: if_splits prod.splits)

lemma getAttackCounters_store:
  assumes "getAttackCounters ev w = (Inr c, w2)"
  shows "store w2 = age (read_delay ev) (snd (exec_cmds pipe (store w)))"
proof -
  from assms obtain rs w1 where
    p: "redis_call ev pipe w = (Inr rs, w1)"
    by (auto simp: getAttackCounters_def await_def split: prod.splits sum.splits)
  with assms obtain v w3 where
    g: "redis_get ev totalKey (elapse (read_delay ev) w1) = (Inr v, w3)" and "w2 = w3"
    by (auto simp: getAttackCounters_def await_def[of "redis_call ev pipe"] Let_def
          await_def[of "redis_get ev totalKey"] resolve_def split: prod.splits sum.splits)
  with redis_get_value[OF g] redis_call_store[OF p] show ?thesis
    by (simp add: elapse_def)
qed

lemma flag_survives:
  assumes "s ''notification_sent_flag'' = Some e"
    and "case ttl e of None \<Rightarrow> True | Some t \<Rightarrow> d < t"
  shows "map_option val (age d (snd (exec_cmds pipe s)) ''notification_sent_flag'') = Some (val e)"
proof -
  have "snd (exec_cmds pipe s) ''notification_sent_flag'' = s ''notification_sent_flag''"
    by (rule pipe_other) (simp_all add: totalKey_def blockedKey_def)
  with assms show ?thesis
    by (auto simp: age_def split: option.splits)
qed

lemma only_attackDetector_when_flag:
  assumes flag: "store w ''notification_sent_flag'' = Some e" "truthy (Some (val e))"
    and live: "case ttl e of None \<Rightarrow> True | Some t \<Rightarrow> read_delay ev < t"
  shows "only_store_calls w (snd (attackDetector ev w))"
  unfolding attackDetector_def
proof (rule only_await[OF only_getAttackCounters], goal_cases)
  case (1 c w2)
  from getAttackCounters_store[OF 1]
    flag_survives[where s = "store w" and d = "read_delay ev", OF flag(1) live]
  have v: "map_option val (store w2 ''notification_sent_flag'') = Some (val e)" by simp
  have "only_store_calls w2
     (snd (await (redis_get ev ''notification_sent_flag'')
        (\<lambda>notificationSent.
           if \<not> truthy notificationSent
           then \<lambda>w. await (redis_set ev ''notification_sent_flag'' ''true''
                            ATTACK_TIME_WINDOW_SECONDS)
                      (\<lambda>u. resolve NextResponse_next)
                      (sendTelegramMessage ev (message c) w)
           else resolve NextResponse_next) w2))"
  proof (rule only_await[OF only_redis_get], goal_cases)
    case (1 a w3)
    from redis_get_value[OF 1] v flag(2) have "truthy a" by simp
    then show ?case by (simp add: only_resolve)
  qed
  then show ?case by (simp add: only_resolve)
qed

lemma only_middleware_when_flag:
  assumes flag: "store w ''notification_sent_flag'' = Some e" "truthy (Some (val e))"
    and live: "case ttl e of None \<Rightarrow> True | Some t \<Rightarrow> read_delay ev < t"
  shows "only_store_calls w (snd (middleware bc ua rl ev request w))"
proof -
  have deny: "only_store_calls w0 (snd (await (incrementBlockedCounter ev) (\<lambda>u. resolve r) w0))"
    for r :: response and w0 :: "'a world"
    by (intro only_await only_incrementBlockedCounter only_resolve)
  have "only_store_calls w
     (snd (await (ratelimit_limit rl ev (client_ip request))
        (\<lambda>success.
           if \<not> success then
             await (incrementBlockedCounter ev)
               (\<lambda>u. resolve (NextResponse ''Too many requests. Please try again later.'' 429))
           else attackDetector ev) w))"
  proof (rule only_await[OF only_ratelimit_limit], goal_cases)
    case (1 success w1)
    then have "store w1 = store w"
      by (auto simp: ratelimit_limit_def Let_def split: if_splits prod.splits)
    with flag have "store w1 ''notification_sent_flag'' = Some e" by simp
    from only_attackDetector_when_flag[OF this flag(2) live] show ?case
      by (simp add: deny)
  qed
  then show ?thesis
    by (simp add: middleware_def only_resolve deny split: option.splits)
qed

lemma can_incr_cong:
  "map_option val (s' k') = map_option val (s k) \<Longrightarrow> can_incr n s' k' = can_incr n s k"
  by (cases "s k"; cases "s' k'") (auto simp: can_incr_def)

lemma can_incr_absent: "map_option val (s k) = None \<Longrightarrow> can_incr n s k"
  by (simp add: can_incr_def)

lemma age_val_cases:
  "map_option val (age d s k) = None \<or> map_option val (age d s k) = map_option val (s k)"
  by (auto simp: age_def split: option.splits)

lemma can_incr_age: "can_incr n s k \<Longrightarrow> can_incr n (age d s) k"
  using age_val_cases[of d s k] can_incr_absent[of "age d s" k n] can_incr_cong[of "age d s" k s k n]
  by metis

lemma incr_val_Suc:
  "can_incr (Suc n) s k \<Longrightarrow> n < 2 ^ 62 \<Longrightarrow> can_incr n (snd (incr k s)) k"
  by (auto simp: incr_def can_incr_def split: option.splits rval.splits)

lemma can_incr_after_pipe_total:
  assumes "can_incr (Suc n) s totalKey" and "n < 2 ^ 62"
  shows "can_incr n (age d (snd (exec_cmds pipe s))) totalKey"
proof -
  have "can_incr n (snd (exec_cmds pipe s)) totalKey = can_incr n (snd (incr totalKey s)) totalKey"
    by (rule can_incr_cong) (rule pipe_total_val)
  with incr_val_Suc[OF assms] show ?thesis by (simp add: can_incr_age)
qed

lemma can_incr_after_pipe_blocked:
  assumes "can_incr n s blockedKey"
  shows "can_incr n (age d (snd (exec_cmds pipe s))) blockedKey"
proof -
  have "can_incr n (snd (exec_cmds pipe s)) blockedKey = can_incr n s blockedKey"
    by (rule can_incr_cong) (rule pipe_blocked_val)
  with assms show ?thesis by (simp add: can_incr_age)
qed

lemma sendTelegramMessage_fields:
  "store (sendTelegramMessage ev m w) = store w"
  "limiter (sendTelegramMessage ev m w) = limiter w"
  "clock (sendTelegramMessage ev m w) = clock w"
  by (simp_all add: sendTelegramMessage_def Let_def split: option.splits)

lemma attackDetector_frame:
  assumes ok: "\<forall>i. \<not> fails ev i" and room: "can_incr (Suc 0) (store w) totalKey"
  shows "\<exists>w'. attackDetector ev w = (Inr NextResponse_next, w')
           \<and> limiter w' = limiter w \<and> clock w' = clock w + read_delay ev
           \<and> (\<forall>k. k \<noteq> ''notification_sent_flag'' \<longrightarrow>
                  store w' k = age (read_delay ev) (snd (exec_cmds pipe (store w))) k)"
proof -
  from ok have ok1: "\<not> fails ev (length (events w))" and ok2: "\<not> fails ev (Suc (length (events w)))"
    by simp_all
  note G = getAttackCounters_ok[OF ok1 ok2 room]
  obtain c w2 where cw: "getAttackCounters ev w = (Inr c, w2)"
    and w2: "limiter w2 = limiter w" "clock w2 = clock w + read_delay ev"
      "store w2 = age (read_delay ev) (snd (exec_cmds pipe (store w)))"
    using G by simp
  show ?thesis
  proof (cases "number_gt (totalRequests c) ATTACK_THRESHOLD")
    case False
    from attackDetector_quiet[OF cw False] w2 show ?thesis by simp
  next
    case True
    from ok have f2: "\<not> fails ev (length (events w2))" by simp
    show ?thesis
    proof (cases "truthy (map_option val (store w2 ''notification_sent_flag''))")
      case t: True
      from attackDetector_suppressed[OF cw True f2 t] w2 show ?thesis by simp
    next
      case f: False
      let ?w3 = "sendTelegramMessage ev (message c)
           (w2\<lparr>events := events w2 @ [Redis [GET ''notification_sent_flag'']]\<rparr>)"
      from ok have f3: "\<not> fails ev (length (events ?w3))" by simp
      from attackDetector_notifies[OF cw True f2 f refl f3] w2 show ?thesis
        by (simp add: sendTelegramMessage_fields)
    qed
  qed
qed

lemma step_admitted:
  assumes conf: "redis_configured ev" and ok: "\<forall>i. \<not> fails ev i"
    and pass: "blockedCountry BLOCKED_COUNTRIES request = None"
      "isAllowedUserAgent ALLOWED_USER_AGENTS request"
    and few: "length (filter (\<lambda>t. clock w < t + INDIVIDUAL_RATE_LIMIT_window)
                (limiter w (client_ip request))) < INDIVIDUAL_RATE_LIMIT_requests"
    and room: "can_incr (Suc n) (store w) totalKey" "n < 2 ^ 62"
    and rb: "can_incr m (store w) blockedKey"
  shows "\<exists>w'. middleware BLOCKED_COUNTRIES ALLOWED_USER_AGENTS ratelimit ev request w =
                (Inr NextResponse_next, w')
     \<and> limiter w' = (limiter w)(client_ip request :=
           clock w # filter (\<lambda>t. clock w < t + INDIVIDUAL_RATE_LIMIT_window)
                       (limiter w (client_ip request)))
     \<and> clock w' = clock w + read_delay ev
     \<and> can_incr n (store w') totalKey \<and> can_incr m (store w') blockedKey"
proof -
  let ?l = "(limiter w)(client_ip request :=
           clock w # filter (\<lambda>t. clock w < t + INDIVIDUAL_RATE_LIMIT_window)
                       (limiter w (client_ip request)))"
  let ?w1 = "w\<lparr>events := events w @ [Limit (client_ip request)], limiter := ?l\<rparr>"
  from few have rl: "ratelimit (limiter w) (clock w) (client_ip request) = (True, ?l)"
    by (simp add: ratelimit_def slidingWindow_def)
  from ok have ok0: "\<not> fails ev (length (events w))" by simp
  note mw = mw_allowed[where rl = ratelimit, OF conf ok0 pass rl]
  from room have r1: "can_incr (Suc 0) (store ?w1) totalKey"
    by (auto simp: can_incr_def split: option.splits rval.splits)
  from attackDetector_frame[OF ok r1] obtain w' where
    d: "attackDetector ev ?w1 = (Inr NextResponse_next, w')"
    and l: "limiter w' = ?l" and c: "clock w' = clock w + read_delay ev"
    and s: "\<And>k. k \<noteq> ''notification_sent_flag'' \<Longrightarrow>
               store w' k = age (read_delay ev) (snd (exec_cmds pipe (store w))) k"
    by auto
  have t: "can_incr n (store w') totalKey"
    using can_incr_after_pipe_total[OF room, of "read_delay ev"] s[of totalKey]
    by (simp add: can_incr_def totalKey_def)
  have b: "can_incr m (store w') blockedKey"
    using can_incr_after_pipe_blocked[OF rb, of "read_delay ev"] s[of blockedKey]
    by (simp add: can_incr_def blockedKey_def)
  from mw d l c t b show ?thesis by simp
qed

lemma step_denied:
  assumes conf: "redis_configured ev" and ok: "\<forall>i. \<not> fails ev i"
    and pass: "blockedCountry BLOCKED_COUNTRIES request = None"
      "isAllowedUserAgent ALLOWED_USER_AGENTS request"
    and full: "\<not> length (filter (\<lambda>t. clock w < t + INDIVIDUAL_RATE_LIMIT_window)
                (limiter w (client_ip request))) < INDIVIDUAL_RATE_LIMIT_requests"
    and rb: "can_incr (Suc 0) (store w) blockedKey"
  shows "fst (middleware BLOCKED_COUNTRIES ALLOWED_USER_AGENTS ratelimit ev request w) =
           Inr (NextResponse ''Too many requests. Please try again later.'' 429)"
proof -
  let ?l = "(limiter w)(client_ip request :=
           filter (\<lambda>t. clock w < t + INDIVIDUAL_RATE_LIMIT_window) (limiter w (client_ip request)))"
  let ?w1 = "w\<lparr>events := events w @ [Limit (client_ip request)], limiter := ?l\<rparr>"
  from full have rl: "ratelimit (limiter w) (clock w) (client_ip request) = (False, ?l)"
    by (simp add: ratelimit_def slidingWindow_def)
  from ok have ok0: "\<not> fails ev (length (events w))"
    and ok1: "\<not> fails ev (length (events ?w1))" by simp_all
  from rb have rb1: "can_incr (Suc 0) (store ?w1) blockedKey" by simp
  show ?thesis
    by (simp add: mw_limit[OF conf pass]
          await_def[of "ratelimit_limit ratelimit ev (client_ip request)"]
          ratelimit_limit_ok[where rl = ratelimit and w = w and k = "client_ip request", OF ok0 rl]
          deny_ok[OF ok1 rb1])
qed

lemma recent_are_new:
  assumes inv: "\<forall>t \<in> set L. T0 \<le> t \<or> t + W \<le> T0"
    and now: "T0 \<le> now" "now < T0 + (W::nat)"
  shows "filter (\<lambda>t. now < t + W) L = filter (\<lambda>t. T0 \<le> t) L"
  using inv now by (intro filter_cong) auto

lemma serve_admits:
  assumes conf: "redis_configured ev" and ok: "\<forall>i. \<not> fails ev i"
  shows "(\<forall>x \<in> set reqs. client_ip (snd x) = k
             \<and> blockedCountry BLOCKED_COUNTRIES (snd x) = None
             \<and> isAllowedUserAgent ALLOWED_USER_AGENTS (snd x)) \<Longrightarrow>
     (\<forall>t \<in> set (limiter w k). T0 \<le> t \<or> t + INDIVIDUAL_RATE_LIMIT_window \<le> T0) \<Longrightarrow>
     length (filter (\<lambda>t. T0 \<le> t) (limiter w k)) + length reqs \<le> INDIVIDUAL_RATE_LIMIT_requests \<Longrightarrow>
     (reqs \<noteq> [] \<longrightarrow> T0 \<le> clock w + fst (hd reqs)) \<Longrightarrow>
     clock w + sum_list (map fst reqs) + length reqs * read_delay ev
       < T0 + INDIVIDUAL_RATE_LIMIT_window + read_delay ev \<Longrightarrow>
     can_incr (length reqs) (store w) totalKey \<Longrightarrow>
     can_incr m (store w) blockedKey \<Longrightarrow>
     \<exists>w'. serve ratelimit ev reqs w = (replicate (length reqs) (Inr NextResponse_next), w')
       \<and> (\<forall>t \<in> set (limiter w' k). T0 \<le> t \<or> t + INDIVIDUAL_RATE_LIMIT_window \<le> T0)
       \<and> length (filter (\<lambda>t. T0 \<le> t) (limiter w' k)) =
           length (filter (\<lambda>t. T0 \<le> t) (limiter w k)) + length reqs
       \<and> clock w' = clock w + sum_list (map fst reqs) + length reqs * read_delay ev
       \<and> can_incr m (store w') blockedKey"
proof (induction reqs arbitrary: w)
  case Nil
  then show ?case by simp
next
  case (Cons x rest)
  obtain d request where x: "x = (d, request)" by (cases x)
  let ?W = INDIVIDUAL_RATE_LIMIT_window
  let ?we = "elapse d w"
  let ?now = "clock w + d"
  from Cons.prems(1) x have key: "client_ip request = k"
    and pass: "blockedCountry BLOCKED_COUNTRIES request = None"
      "isAllowedUserAgent ALLOWED_USER_AGENTS request"
    by auto
  from Cons.prems(4) x have lo: "T0 \<le> ?now" by simp
  from Cons.prems(5) x have hi: "?now < T0 + ?W" by simp
  have we: "limiter ?we = limiter w" "clock ?we = ?now" "store ?we = age d (store w)"
    by (simp_all add: elapse_def)
  have recent: "filter (\<lambda>t. ?now < t + ?W) (limiter w k) = filter (\<lambda>t. T0 \<le> t) (limiter w k)"
    by (rule recent_are_new[OF Cons.prems(2) lo hi])
  from Cons.prems(3) have few:
    "length (filter (\<lambda>t. clock ?we < t + ?W) (limiter ?we (client_ip request)))
       < INDIVIDUAL_RATE_LIMIT_requests"
    by (simp add: we key recent)
  from Cons.prems(3) have small: "length rest < 2 ^ 62"
    by (simp add: INDIVIDUAL_RATE_LIMIT_requests_def)
  from Cons.prems(6) have room: "can_incr (Suc (length rest)) (store ?we) totalKey"
    by (simp add: we can_incr_age)
  from Cons.prems(7) have rb: "can_incr m (store ?we) blockedKey"
    by (simp add: we can_incr_age)
  from step_admitted[OF conf ok pass few room small rb] obtain w1 where
    run1: "middleware BLOCKED_COUNTRIES ALLOWED_USER_AGENTS ratelimit ev request ?we =
             (Inr NextResponse_next, w1)"
    and l1: "limiter w1 k = ?now # filter (\<lambda>t. T0 \<le> t) (limiter w k)"
    and c1: "clock w1 = ?now + read_delay ev"
    and t1: "can_incr (length rest) (store w1) totalKey"
    and b1: "can_incr m (store w1) blockedKey"
    by (auto simp: we key recent)
  have p1: "\<forall>x \<in> set rest. client_ip (snd x) = k
             \<and> blockedCountry BLOCKED_COUNTRIES (snd x) = None
             \<and> isAllowedUserAgent ALLOWED_USER_AGENTS (snd x)"
    using Cons.prems(1) by simp
  have p2: "\<forall>t \<in> set (limiter w1 k). T0 \<le> t \<or> t + ?W \<le> T0"
    using lo by (auto simp: l1)
  have n1: "length (filter (\<lambda>t. T0 \<le> t) (limiter w1 k)) =
              Suc (length (filter (\<lambda>t. T0 \<le> t) (limiter w k)))"
    using lo by (simp add: l1)
  have p3: "length (filter (\<lambda>t. T0 \<le> t) (limiter w1 k)) + length rest
              \<le> INDIVIDUAL_RATE_LIMIT_requests"
    using Cons.prems(3) by (simp add: n1)
  have p4: "rest \<noteq> [] \<longrightarrow> T0 \<le> clock w1 + fst (hd rest)"
    using lo by (simp add: c1)
  have p5: "clock w1 + sum_list (map fst rest) + length rest * read_delay ev
              < T0 + ?W + read_delay ev"
    using Cons.prems(5) x by (simp add: c1)
  from Cons.IH[OF p1 p2 p3 p4 p5 t1 b1] obtain w' where
    run: "serve ratelimit ev rest w1 = (replicate (length rest) (Inr NextResponse_next), w')"
    and i': "\<forall>t \<in> set (limiter w' k). T0 \<le> t \<or> t + ?W \<le> T0"
    and n': "length (filter (\<lambda>t. T0 \<le> t) (limiter w' k)) =
           length (filter (\<lambda>t. T0 \<le> t) (limiter w1 k)) + length rest"
    and c': "clock w' = clock w1 + sum_list (map fst rest) + length rest * read_delay ev"
    and b': "can_incr m (store w') blockedKey"
    by blast
  have "serve ratelimit ev (x # rest) w =
          (replicate (length (x # rest)) (Inr NextResponse_next), w')"
    by (simp add: x run1 run)
  moreover have "length (filter (\<lambda>t. T0 \<le> t) (limiter w' k)) =
           length (filter (\<lambda>t. T0 \<le> t) (limiter w k)) + length (x # rest)"
    by (simp add: n' n1)
  moreover have "clock w' = clock w + sum_list (map fst (x # rest))
                   + length (x # rest) * read_delay ev"
    by (simp add: c' c1 x)
  ultimately show ?case using i' b' by blast
qed

lemma serve_append:
  "serve rl ev (xs @ ys) w =
     (let (rs, w1) = serve rl ev xs w; (rs', w2) = serve rl ev ys w1 in (rs @ rs', w2))"
  by (induction xs arbitrary: w) (auto split: prod.splits)

text \<open>Counter keys hold counts in every state that requests and the passing of time
  reach from the empty store.\<close>

lemma holds_count_cong:
  "map_option val (s' k) = map_option val (s k) \<Longrightarrow> holds_count s' k = holds_count s k"
  by (cases "s k"; cases "s' k") (auto simp: holds_count_def)

lemma holds_count_absent: "s k = None \<Longrightarrow> holds_count s k"
  by (simp add: holds_count_def)

lemma holds_count_age: "holds_count s k \<Longrightarrow> holds_count (age d s) k"
  using age_val_cases[of d s k] holds_count_cong[of "age d s" k s]
  by (cases "age d s k") (auto simp: holds_count_absent)

lemma holds_count_incr: "holds_count s k \<Longrightarrow> holds_count (snd (incr k' s)) k"
  by (auto simp: holds_count_def incr_def split: option.splits rval.splits)

lemma holds_count_expire_nx: "holds_count s k \<Longrightarrow> holds_count (snd (expire_nx k' secs s)) k"
  using holds_count_cong[of "snd (expire_nx k' secs s)" k s]
    expire_nx_val[where k = k' and k' = k and secs = secs and s = s]
  by simp

lemma holds_count_set_ex:
  "holds_count s k \<Longrightarrow> k \<noteq> k' \<Longrightarrow> holds_count (snd (set_ex k' v secs s)) k"
  by (simp add: holds_count_def set_ex_def)

lemma holds_count_exec_cmd:
  "holds_count s k \<Longrightarrow> \<not> writes_text k c \<Longrightarrow> holds_count (snd (exec_cmd c s)) k"
  by (cases c) (simp_all add: holds_count_incr holds_count_expire_nx holds_count_set_ex)

lemma holds_count_exec_cmds:
  "holds_count s k \<Longrightarrow> \<forall>c \<in> set cs. \<not> writes_text k c \<Longrightarrow>
   holds_count (snd (exec_cmds cs s)) k"
proof (induction cs arbitrary: s)
  case Nil
  then show ?case by simp
next
  case (Cons c cs)
  from Cons.prems have "holds_count (snd (exec_cmd c s)) k"
    by (simp add: holds_count_exec_cmd)
  from Cons.IH[OF this] Cons.prems(2) show ?case
    by (simp add: split_beta)
qed

lemma counts_ok_empty: "counts_ok Map.empty"
  by (simp add: counts_ok_def holds_count_def)

lemma counts_ok_age: "counts_ok s \<Longrightarrow> counts_ok (age d s)"
  by (simp add: counts_ok_def holds_count_age)

lemma await_inv:
  assumes m: "Q (snd (m w))"
    and f: "\<And>a w1. m w = (Inr a, w1) \<Longrightarrow> Q w1 \<Longrightarrow> Q (snd (f a w1))"
  shows "Q (snd (await m f w))"
proof (cases "m w")
  case (Pair r w1)
  with m have q: "Q w1" by simp
  show ?thesis
  proof (cases r)
    case (Inl e)
    with Pair q show ?thesis by (simp add: await_def)
  next
    case (Inr a)
    with Pair f[of a w1] q show ?thesis by (simp add: await_def)
  qed
qed

lemma counts_redis_call:
  assumes "counts_ok (store w)"
    and "\<forall>c \<in> set cs. \<not> writes_text totalKey c \<and> \<not> writes_text blockedKey c"
  shows "counts_ok (store (snd (redis_call ev cs w)))"
  using assms holds_count_exec_cmds[of "store w" totalKey cs]
    holds_count_exec_cmds[of "store w" blockedKey cs]
  by (auto simp: redis_call_def counts_ok_def Let_def split: prod.splits)

lemma counts_resolve: "counts_ok (store w) \<Longrightarrow> counts_ok (store (snd (resolve a w)))"
  by (simp add: resolve_def)

lemma counts_incrementBlockedCounter:
  "counts_ok (store w) \<Longrightarrow> counts_ok (store (snd (incrementBlockedCounter ev w)))"
  unfolding incrementBlockedCounter_def
  by (rule await_inv[where Q = "\<lambda>w. counts_ok (store w)"])
     (simp_all add: counts_redis_call counts_resolve)

lemma counts_redis_get:
  "counts_ok (store w) \<Longrightarrow> counts_ok (store (snd (redis_get ev k w)))"
  unfolding redis_get_def
  by (rule await_inv[where Q = "\<lambda>w. counts_ok (store w)"])
     (simp_all add: counts_redis_call counts_resolve)

lemma counts_redis_set_flag:
  "counts_ok (store w) \<Longrightarrow>
   counts_ok (store (snd (redis_set ev ''notification_sent_flag'' v secs w)))"
  unfolding redis_set_def
  by (rule await_inv[where Q = "\<lambda>w. counts_ok (store w)"])
     (simp_all add: counts_redis_call counts_resolve totalKey_def blockedKey_def)

lemma counts_getAttackCounters:
  assumes "counts_ok (store w)"
  shows "counts_ok (store (snd (getAttackCounters ev w)))"
  unfolding getAttackCounters_def
proof (rule await_inv[where Q = "\<lambda>w. counts_ok (store w)"], goal_cases)
  case 1
  from assms show ?case by (simp add: counts_redis_call pipe_def)
next
  case (2 rs w1)
  then have "counts_ok (store (elapse (read_delay ev) w1))"
    by (simp add: elapse_def counts_ok_age)
  then show ?case
    unfolding Let_def
    by (intro await_inv[where Q = "\<lambda>w. counts_ok (store w)"] counts_redis_get counts_resolve)
qed

lemma counts_attackDetector:
  assumes "counts_ok (store w)"
  shows "counts_ok (store (snd (attackDetector ev w)))"
  unfolding attackDetector_def
proof (rule await_inv[where Q = "\<lambda>w. counts_ok (store w)"], goal_cases)
  case 1
  from assms show ?case by (rule counts_getAttackCounters)
next
  case (2 c w2)
  have "counts_ok (store (snd (await (redis_get ev ''notification_sent_flag'')
        (\<lambda>notificationSent.
           if \<not> truthy notificationSent
           then \<lambda>w. await (redis_set ev ''notification_sent_flag'' ''true''
                            ATTACK_TIME_WINDOW_SECONDS)
                      (\<lambda>u. resolve NextResponse_next)
                      (sendTelegramMessage ev (message c) w)
           else resolve NextResponse_next) w2)))"
  proof (rule await_inv[where Q = "\<lambda>w. counts_ok (store w)"], goal_cases)
    case 1
    from 2 show ?case by (simp add: counts_redis_get)
  next
    case (2 a w3)
    then have "counts_ok (store (sendTelegramMessage ev (message c) w3))"
      by (simp add: sendTelegramMessage_fields)
    then have "counts_ok (store (snd (await (redis_set ev ''notification_sent_flag'' ''true''
                            ATTACK_TIME_WINDOW_SECONDS)
                      (\<lambda>u. resolve NextResponse_next)
                      (sendTelegramMessage ev (message c) w3))))"
      by (intro await_inv[where Q = "\<lambda>w. counts_ok (store w)"] counts_redis_set_flag
            counts_resolve)
    with 2 show ?case by (simp add: counts_resolve)
  qed
  with 2 show ?case by (simp add: counts_resolve)
qed

lemma counts_middleware:
  assumes "counts_ok (store w)"
  shows "counts_ok (store (snd (middleware bc ua rl ev request w)))"
proof -
  have deny: "counts_ok (store (snd (await (incrementBlockedCounter ev) (\<lambda>u. resolve r) w0)))"
    if "counts_ok (store w0)" for r :: response and w0 :: "'a world"
    using that
    by (intro await_inv[where Q = "\<lambda>w. counts_ok (store w)"] counts_incrementBlockedCounter
          counts_resolve)
  have "counts_ok (store (snd (await (ratelimit_limit rl ev (client_ip request))
        (\<lambda>success.
           if \<not> success then
             await (incrementBlockedCounter ev)
               (\<lambda>u. resolve (NextResponse ''Too many requests. Please try again later.'' 429))
           else attackDetector ev) w)))"
  proof (rule await_inv[where Q = "\<lambda>w. counts_ok (store w)"], goal_cases)
    case 1
    from assms show ?case
      by (simp add: ratelimit_limit_def Let_def split: prod.splits)
  next
    case (2 success w1)
    then show ?case by (simp add: deny counts_attackDetector)
  qed
  with assms show ?thesis
    by (simp add: middleware_def counts_resolve deny split: option.splits)
qed

text \<open>While the notification flag is set, no request reaches the notifier, and the
  flag stays set until its time to live has run out.\<close>

lemma await_via:
  assumes m: "P (snd (m w))"
    and fail: "\<And>w1. P w1 \<Longrightarrow> Q w1"
    and f: "\<And>a w1. m w = (Inr a, w1) \<Longrightarrow> P w1 \<Longrightarrow> Q (snd (f a w1))"
  shows "Q (snd (await m f w))"
proof (cases "m w")
  case (Pair r w1)
  with m have p: "P w1" by simp
  show ?thesis
  proof (cases r)
    case (Inl e)
    with Pair fail[OF p] show ?thesis by (simp add: await_def)
  next
    case (Inr a)
    with Pair f[of a w1] p show ?thesis by (simp add: await_def)
  qed
qed

lemma flag_set_mono: "flag_set n s \<Longrightarrow> m \<le> n \<Longrightarrow> flag_set m s"
  by (auto simp: flag_set_def)

lemma flag_set_age: "flag_set n s \<Longrightarrow> d < n \<Longrightarrow> flag_set (n - d) (age d s)"
  by (auto simp: flag_set_def age_def)

lemma set_ex_other: "k' \<noteq> k \<Longrightarrow> snd (set_ex k v secs s) k' = s k'"
  by (simp add: set_ex_def)

lemma exec_cmd_other: "cmd_key c \<noteq> k \<Longrightarrow> snd (exec_cmd c s) k = s k"
  by (cases c) (simp_all add: incr_other expire_nx_other set_ex_other)

lemma exec_cmds_other: "\<forall>c \<in> set cs. cmd_key c \<noteq> k \<Longrightarrow> snd (exec_cmds cs s) k = s k"
proof (induction cs arbitrary: s)
  case Nil
  then show ?case by simp
next
  case (Cons c cs)
  then have "snd (exec_cmds cs (snd (exec_cmd c s))) k = snd (exec_cmd c s) k"
    by simp
  with Cons.prems show ?case
    by (simp add: split_beta exec_cmd_other)
qed

lemma redis_call_flag:
  assumes "\<forall>c \<in> set cs. cmd_key c \<noteq> ''notification_sent_flag''"
    and "flag_set n (store w)"
  shows "flag_set n (store (snd (redis_call ev cs w)))"
proof (cases "fails ev (length (events w))")
  case True
  with assms(2) show ?thesis by (simp add: redis_call_def)
next
  case False
  then have "store (snd (redis_call ev cs w)) = snd (exec_cmds cs (store w))"
    by (simp add: redis_call_def Let_def split_beta)
  with assms(2) exec_cmds_other[OF assms(1), of "store w"] show ?thesis
    by (simp add: flag_set_def)
qed

lemma flag_incrementBlockedCounter:
  "flag_set n (store w) \<Longrightarrow> flag_set n (store (snd (incrementBlockedCounter ev w)))"
  unfolding incrementBlockedCounter_def
  by (rule await_inv[where Q = "\<lambda>w. flag_set n (store w)"])
     (simp_all add: redis_call_flag resolve_def)

lemma redis_get_store: "store (snd (redis_get ev k w)) = store w"
  by (simp add: redis_get_def await_def redis_call_def resolve_def Let_def)

lemma flag_redis_get:
  "flag_set n (store w) \<Longrightarrow> flag_set n (store (snd (redis_get ev k w)))"
  by (simp add: redis_get_store)

lemma flag_getAttackCounters:
  assumes "flag_set n (store w)" and "read_delay ev < n"
  shows "flag_set (n - read_delay ev) (store (snd (getAttackCounters ev w)))"
  unfolding getAttackCounters_def
proof (rule await_via[where P = "\<lambda>w. flag_set n (store w)"], goal_cases)
  case 1
  from assms(1) show ?case
    by (rule redis_call_flag[rotated]) (simp add: pipe_def totalKey_def blockedKey_def)
next
  case (2 w1)
  then show ?case by (rule flag_set_mono) simp
next
  case (3 rs w1)
  with assms(2) have "flag_set (n - read_delay ev) (store (elapse (read_delay ev) w1))"
    by (simp add: elapse_def flag_set_age)
  then show ?case
    unfolding Let_def
    by (intro await_inv[where Q = "\<lambda>w. flag_set (n - read_delay ev) (store w)"] flag_redis_get)
       (simp_all add: resolve_def)
qed

lemma flag_set_truthy:
  "flag_set n s \<Longrightarrow> truthy (map_option val (s ''notification_sent_flag''))"
  by (auto simp: flag_set_def)

lemma flag_attackDetector:
  assumes "flag_set n (store w)" and "read_delay ev < n"
  shows "flag_set (n - read_delay ev) (store (snd (attackDetector ev w)))"
  unfolding attackDetector_def
proof (rule await_inv[where Q = "\<lambda>w. flag_set (n - read_delay ev) (store w)"], goal_cases)
  case 1
  from assms show ?case by (rule flag_getAttackCounters)
next
  case (2 c w2)
  have "flag_set (n - read_delay ev) (store (snd (await (redis_get ev ''notification_sent_flag'')
        (\<lambda>notificationSent.
           if \<not> truthy notificationSent
           then \<lambda>w. await (redis_set ev ''notification_sent_flag'' ''true''
                            ATTACK_TIME_WINDOW_SECONDS)
                      (\<lambda>u. resolve NextResponse_next)
                      (sendTelegramMessage ev (message c) w)
           else resolve NextResponse_next) w2)))"
  proof (rule await_via[where P = "\<lambda>w. flag_set (n - read_delay ev) (store w) \<and> store w = store w2"],
      goal_cases)
    case 1
    from 2(2) show ?case by (simp add: redis_get_store)
  next
    case (2 w1)
    then show ?case by auto
  next
    case (3 a w3)
    from redis_get_value[OF 3(1)] flag_set_truthy[OF 2(2)] have "truthy a" by simp
    with 3(2) show ?case by (auto simp: resolve_def)
  qed
  with 2 show ?case by (simp add: resolve_def)
qed

lemma flag_middleware:
  assumes "flag_set n (store w)" and "read_delay ev < n"
  shows "flag_set (n - read_delay ev) (store (snd (middleware bc ua rl ev request w)))"
proof -
  from assms(1) have weak: "flag_set (n - read_delay ev) (store w)"
    by (rule flag_set_mono) simp
  have deny: "flag_set (n - read_delay ev)
      (store (snd (await (incrementBlockedCounter ev) (\<lambda>u. resolve r) w0)))"
    if "flag_set n (store w0)" for r :: response and w0 :: "'a world"
  proof -
    from that have "flag_set (n - read_delay ev) (store w0)" by (rule flag_set_mono) simp
    then show ?thesis
      by (intro await_inv[where Q = "\<lambda>w. flag_set (n - read_delay ev) (store w)"]
            flag_incrementBlockedCounter) (simp_all add: resolve_def)
  qed
  have "flag_set (n - read_delay ev) (store (snd (await (ratelimit_limit rl ev (client_ip request))
        (\<lambda>success.
           if \<not> success then
             await (incrementBlockedCounter ev)
               (\<lambda>u. resolve (NextResponse ''Too many requests. Please try again later.'' 429))
           else attackDetector ev) w)))"
  proof (rule await_via[where P = "\<lambda>w. flag_set n (store w)"], goal_cases)
    case 1
    from assms(1) show ?case
      by (simp add: ratelimit_limit_def Let_def split: prod.splits)
  next
    case (2 w1)
    then show ?case by (rule flag_set_mono) simp
  next
    case (3 success w1)
    with assms(2) show ?case by (simp add: deny flag_attackDetector)
  qed
  with assms(1) weak show ?thesis
    by (simp add: middleware_def resolve_def deny split: option.splits)
qed

lemma serve_quiet:
  "flag_set n (store w) \<Longrightarrow>
   sum_list (map fst reqs) + length reqs * read_delay ev < n \<Longrightarrow>
   only_store_calls w (snd (serve rl ev reqs w))"
proof (induction reqs arbitrary: w n)
  case Nil
  then show ?case by (simp add: only_refl)
next
  case (Cons x rest)
  obtain d request where x: "x = (d, request)" by (cases x)
  let ?we = "elapse d w"
  let ?w1 = "snd (middleware BLOCKED_COUNTRIES ALLOWED_USER_AGENTS rl ev request ?we)"
  from Cons.prems(2) x have d: "d < n" and rd: "read_delay ev < n - d"
    and rest: "sum_list (map fst rest) + length rest * read_delay ev < n - d - read_delay ev"
    by simp_all
  from Cons.prems(1) d have fe: "flag_set (n - d) (store ?we)"
    by (simp add: elapse_def flag_set_age)
  then obtain t where t: "store ?we ''notification_sent_flag'' =
      Some \<lparr>val = Str ''true'', ttl = Some t\<rparr>" "n - d \<le> t"
    by (auto simp: flag_set_def)
  have "only_store_calls ?we ?w1"
    by (rule only_middleware_when_flag[OF t(1)]) (use t(2) rd in simp_all)
  then have 1: "only_store_calls w ?w1"
    by (rule only_same_events[rotated]) (simp add: elapse_def)
  from flag_middleware[OF fe rd] have "flag_set (n - d - read_delay ev) (store ?w1)" .
  from Cons.IH[OF this rest] have "only_store_calls ?w1 (snd (serve rl ev rest ?w1))" .
  with 1 have "only_store_calls w (snd (serve rl ev rest ?w1))" by (rule only_trans)
  then show ?case by (simp add: x split_beta)
qed

text \<open>The time to live of \<open>attack:blocked\<close> is armed by the pipeline of the allow
  path: a denied request followed by an allowed one leaves the counter with 60
  seconds to live.\<close>

lemma allow_path_arms_blocked_ttl:
  "store (snd (serve always_admit example_env [(0, request_RU), (0, request_chrome)] empty_world))
     blockedKey = Some \<lparr>val = Num 1, ttl = Some 60000\<rparr>"
  by (simp add: middleware_def blockedCountry_def request_RU_def request_chrome_def
        BLOCKED_COUNTRIES_def ALLOWED_USER_AGENTS_def isAllowedUserAgent_def userAgent_def
        str_includes_def client_ip_def ratelimit_limit_def always_admit_def
        example_env_def empty_world_def incrementBlockedCounter_def await_def redis_call_def
        redis_get_def incr_def expire_nx_def resolve_def elapse_def age_def attackDetector_def
        getAttackCounters_def pipe_def totalKey_def blockedKey_def ATTACK_THRESHOLD_def
        ATTACK_TIME_WINDOW_SECONDS_def Let_def)

section \<open>Properties\<close>

text \<open>
  C8. When the store is not configured at start-up the middleware passes every request
  through: it makes no check, issues no call to the store, the limiter or the
  notification channel, and leaves the world as it found it.
\<close>

theorem unconfigured_passes_through:
  "\<not> redis_configured ev \<Longrightarrow> middleware bc ua rl ev request w = (Inr NextResponse_next, w)"
  by (simp add: middleware_def resolve_def)

theorem unconfigured_passes_through_witness:
  "\<not> redis_configured unconfigured_env \<and>
   middleware BLOCKED_COUNTRIES ALLOWED_USER_AGENTS always_admit unconfigured_env request_RU
     empty_world = (Inr NextResponse_next, empty_world)"
proof -
  have h: "\<not> redis_configured unconfigured_env"
    by (simp add: unconfigured_env_def)
  from h unconfigured_passes_through[OF h] show ?thesis by simp
qed

text \<open>
  C5. With the store configured and answering, the response is the 403 of the country
  check exactly when the request carries a country and that country is in
  \<open>BLOCKED_COUNTRIES\<close>, whatever the User-Agent and the limiter say. A request
  without country information makes the right-hand side false, so it never gets that
  response.
\<close>

theorem country_check_denies_403:
  assumes conf: "redis_configured ev"
    and ok: "\<not> fails ev (length (events w))"
    and room: "can_incr (Suc 0) (store w) ''attack:blocked''"
  shows "(\<exists>c. fst (middleware BLOCKED_COUNTRIES ua rl ev request w) =
               Inr (NextResponse (''Access from country '' @ c @ '' is denied.'') 403))
         \<longleftrightarrow> (\<exists>c. geo_country request = Some c \<and> c \<in> set BLOCKED_COUNTRIES)"
proof (cases "blockedCountry BLOCKED_COUNTRIES request")
  case (Some c)
  then have c: "geo_country request = Some c \<and> c \<in> set BLOCKED_COUNTRIES"
    by (simp add: blockedCountry_module)
  have "fst (middleware BLOCKED_COUNTRIES ua rl ev request w) =
          Inr (NextResponse (''Access from country '' @ c @ '' is denied.'') 403)"
    by (simp add: mw_country[OF conf Some] await_def incrementBlockedCounter_ok[OF ok room]
          resolve_def)
  with c show ?thesis by blast
next
  case None
  then have no: "\<not> (\<exists>c. geo_country request = Some c \<and> c \<in> set BLOCKED_COUNTRIES)"
    using blockedCountry_module[of request] by auto
  have "fst (middleware BLOCKED_COUNTRIES ua rl ev request w) \<noteq>
          Inr (NextResponse (''Access from country '' @ c @ '' is denied.'') 403)" for c
  proof (cases "isAllowedUserAgent ua request")
    case True
    from mw_outcome_allowed[OF conf None True, of rl w] show ?thesis by auto
  next
    case False
    from await_resolve_outcome[of "incrementBlockedCounter ev"
        "NextResponse ''Your browser or bot is not allowed.'' 403" w]
    show ?thesis by (auto simp: mw_identity[OF conf None False])
  qed
  with no show ?thesis by blast
qed

theorem country_check_denies_403_witness:
  "fst (middleware BLOCKED_COUNTRIES ALLOWED_USER_AGENTS always_admit example_env request_RU
          empty_world) =
     Inr (NextResponse ''Access from country RU is denied.'' 403)
   \<and> geo_country request_RU = Some ''RU'' \<and> ''RU'' \<in> set BLOCKED_COUNTRIES"
proof -
  have h1: "redis_configured example_env" by (simp add: example_env_def)
  have h2: "\<not> fails example_env (length (events empty_world))" by (simp add: example_env_def)
  have h3: "can_incr (Suc 0) (store empty_world) ''attack:blocked''"
    by (simp add: can_incr_def empty_world_def)
  have c: "geo_country request_RU = Some ''RU'' \<and> ''RU'' \<in> set BLOCKED_COUNTRIES"
    by (simp add: request_RU_def BLOCKED_COUNTRIES_def)
  then have "\<exists>c. geo_country request_RU = Some c \<and> c \<in> set BLOCKED_COUNTRIES" by blast
  with country_check_denies_403[OF h1 h2 h3, of ALLOWED_USER_AGENTS always_admit request_RU]
  obtain c' where "fst (middleware BLOCKED_COUNTRIES ALLOWED_USER_AGENTS always_admit example_env
      request_RU empty_world) = Inr (NextResponse (''Access from country '' @ c' @ '' is denied.'') 403)"
    by blast
  moreover have "fst (middleware BLOCKED_COUNTRIES ALLOWED_USER_AGENTS always_admit example_env
      request_RU empty_world) = Inr (NextResponse ''Access from country RU is denied.'' 403)"
    by (simp add: middleware_def blockedCountry_def request_RU_def BLOCKED_COUNTRIES_def
          example_env_def empty_world_def incrementBlockedCounter_def await_def redis_call_def
          incr_def resolve_def)
  ultimately show ?thesis using c by simp
qed

text \<open>
  C6. For a request that passed the country check, with the store configured and
  answering: the response is the 403 of the identity check exactly when no entry of
  the allow-list occurs in the User-Agent string as a substring (characters are compared
  as they are, so the test is case-sensitive); the result depends only on which entries
  the list has, not on their order; and with the module's list a missing or empty
  User-Agent is denied.
\<close>

theorem identity_check_denies_403:
  assumes conf: "redis_configured ev"
    and ok: "\<not> fails ev (length (events w))"
    and room: "can_incr (Suc 0) (store w) ''attack:blocked''"
    and country: "blockedCountry bc request = None"
  shows "(fst (middleware bc ua rl ev request w) =
            Inr (NextResponse ''Your browser or bot is not allowed.'' 403)
          \<longleftrightarrow> (\<forall>agent \<in> set ua. \<not> (\<exists>p q. userAgent request = p @ agent @ q)))
       \<and> (\<forall>ua'. set ua' = set ua \<longrightarrow>
             middleware bc ua' rl ev request w = middleware bc ua rl ev request w)
       \<and> (user_agent request = None \<or> user_agent request = Some [] \<longrightarrow>
             fst (middleware bc ALLOWED_USER_AGENTS rl ev request w) =
               Inr (NextResponse ''Your browser or bot is not allowed.'' 403))"
proof -
  have deny: "fst (middleware bc ua0 rl ev request w) =
                Inr (NextResponse ''Your browser or bot is not allowed.'' 403)"
    if "\<not> isAllowedUserAgent ua0 request" for ua0
    by (simp add: mw_identity[OF conf country that] await_def
          incrementBlockedCounter_ok[OF ok room] resolve_def)
  have pass: "fst (middleware bc ua rl ev request w) \<noteq>
                Inr (NextResponse ''Your browser or bot is not allowed.'' 403)"
    if "isAllowedUserAgent ua request"
    using mw_outcome_allowed[OF conf country that, of rl w] by auto
  have 1: "fst (middleware bc ua rl ev request w) =
            Inr (NextResponse ''Your browser or bot is not allowed.'' 403)
          \<longleftrightarrow> (\<forall>agent \<in> set ua. \<not> (\<exists>p q. userAgent request = p @ agent @ q))"
    using deny[of ua] pass by (auto simp: isAllowedUserAgent_iff)
  have 2: "middleware bc ua' rl ev request w = middleware bc ua rl ev request w"
    if "set ua' = set ua" for ua'
    by (simp add: middleware_def isAllowedUserAgent_set[OF that])
  have 3: "fst (middleware bc ALLOWED_USER_AGENTS rl ev request w) =
               Inr (NextResponse ''Your browser or bot is not allowed.'' 403)"
    if "user_agent request = None \<or> user_agent request = Some []"
  proof -
    from that have "userAgent request = []" by (auto simp: userAgent_def)
    then show ?thesis by (intro deny empty_userAgent_not_allowed)
  qed
  from 1 2 3 show ?thesis by blast
qed

theorem identity_check_denies_403_witness:
  "fst (middleware BLOCKED_COUNTRIES ALLOWED_USER_AGENTS always_admit example_env request_curl
          empty_world) = Inr (NextResponse ''Your browser or bot is not allowed.'' 403)
   \<and> middleware BLOCKED_COUNTRIES (rev ALLOWED_USER_AGENTS) always_admit example_env request_curl
          empty_world =
     middleware BLOCKED_COUNTRIES ALLOWED_USER_AGENTS always_admit example_env request_curl
          empty_world"
proof -
  have h1: "redis_configured example_env" by (simp add: example_env_def)
  have h2: "\<not> fails example_env (length (events empty_world))" by (simp add: example_env_def)
  have h3: "can_incr (Suc 0) (store empty_world) ''attack:blocked''"
    by (simp add: can_incr_def empty_world_def)
  have h4: "blockedCountry BLOCKED_COUNTRIES request_curl = None"
    by (simp add: blockedCountry_def request_curl_def)
  have "\<forall>agent \<in> set ALLOWED_USER_AGENTS. \<not> str_includes (userAgent request_curl) agent"
    by (simp add: ALLOWED_USER_AGENTS_def userAgent_def request_curl_def str_includes_def)
  then have miss: "\<forall>agent \<in> set ALLOWED_USER_AGENTS.
                \<not> (\<exists>p q. userAgent request_curl = p @ agent @ q)"
    by (simp only: str_includes_iff)
  note T = identity_check_denies_403[OF h1 h2 h3 h4, of ALLOWED_USER_AGENTS always_admit]
  from T miss have a: "fst (middleware BLOCKED_COUNTRIES ALLOWED_USER_AGENTS always_admit
      example_env request_curl empty_world) =
      Inr (NextResponse ''Your browser or bot is not allowed.'' 403)"
    by blast
  have "set (rev ALLOWED_USER_AGENTS) = set ALLOWED_USER_AGENTS" by simp
  with T have b: "middleware BLOCKED_COUNTRIES (rev ALLOWED_USER_AGENTS) always_admit example_env
      request_curl empty_world =
    middleware BLOCKED_COUNTRIES ALLOWED_USER_AGENTS always_admit example_env request_curl
      empty_world"
    by blast
  from a b show ?thesis by (rule conjI)
qed

text \<open>
  C3. \<open>incrementBlockedCounter\<close> only increments \<open>attack:blocked\<close>; it does not arm
  the key's time to live, which only the pipeline of the allow path does
  (\<open>allow_path_arms_blocked_ttl\<close>). After one denied request on an empty store the
  counter is 1 with no time to live, and however much time passes it is still there.
\<close>

theorem blocked_counter_never_expires:
  "store (elapse d (snd (middleware BLOCKED_COUNTRIES ALLOWED_USER_AGENTS always_admit example_env
       request_RU empty_world))) ''attack:blocked'' = Some \<lparr>val = Num 1, ttl = None\<rparr>"
  by (simp add: middleware_def blockedCountry_def request_RU_def BLOCKED_COUNTRIES_def
        example_env_def empty_world_def incrementBlockedCounter_def await_def redis_call_def
        incr_def resolve_def elapse_def age_def)

text \<open>
  C4. A call to the store that is rejected with an error is not absorbed. With every
  call rejected, a request from a blocked country and a request that reaches the
  limiter both end in the store's error, not in a response.
\<close>

theorem store_failure_is_not_absorbed:
  "fst (middleware BLOCKED_COUNTRIES ALLOWED_USER_AGENTS always_admit failing_env request_RU
          empty_world) = Inl StoreError
   \<and> fst (middleware BLOCKED_COUNTRIES ALLOWED_USER_AGENTS always_admit failing_env request_chrome
          empty_world) = Inl StoreError"
  by (simp add: middleware_def blockedCountry_def request_RU_def request_chrome_def
        BLOCKED_COUNTRIES_def ALLOWED_USER_AGENTS_def isAllowedUserAgent_def userAgent_def
        str_includes_def client_ip_def ratelimit_limit_def
        failing_env_def example_env_def empty_world_def incrementBlockedCounter_def await_def
        redis_call_def resolve_def)

text \<open>
  C4, as the code has it. Whenever a call to the store made by \<open>middleware\<close> is
  rejected with an error, the promise of \<open>middleware\<close> is rejected with that error and
  the call is the last thing the function did: no response is produced and no later
  step runs. Calls that are only slow are not the subject of this statement.
\<close>

theorem failed_store_call_rejects:
  assumes run: "middleware bc ua rl ev request w = (r, w')"
    and i: "length (events w) \<le> i" "i < length (events w')"
    and call: "is_store_call (events w' ! i)"
    and failure: "fails ev i"
  shows "r = Inl StoreError \<and> Suc i = length (events w')"
proof -
  from stops_middleware[of ev w bc ua rl request] run
  obtain es where es: "events w' = events w @ es"
    and ok: "\<forall>j < length es. is_store_call (es ! j) \<and> fails ev (length (events w) + j) \<longrightarrow>
           r = Inl StoreError \<and> Suc j = length es"
    by (auto simp: stops_at_failure_def)
  from i es have j: "i - length (events w) < length es" by simp
  from i call es have "is_store_call (es ! (i - length (events w)))"
    by (simp add: nth_append)
  with ok j failure i have "r = Inl StoreError \<and> Suc (i - length (events w)) = length es"
    by simp
  with es i show ?thesis by auto
qed

theorem failed_store_call_rejects_witness:
  "middleware BLOCKED_COUNTRIES ALLOWED_USER_AGENTS always_admit failing_env request_RU empty_world
     = (Inl StoreError, empty_world\<lparr>events := [Redis [INCR ''attack:blocked'']]\<rparr>)
   \<and> is_store_call (events (empty_world\<lparr>events := [Redis [INCR ''attack:blocked'']]\<rparr>) ! 0)
   \<and> fails failing_env 0"
proof -
  have run: "middleware BLOCKED_COUNTRIES ALLOWED_USER_AGENTS always_admit failing_env request_RU
      empty_world
     = (fst (middleware BLOCKED_COUNTRIES ALLOWED_USER_AGENTS always_admit failing_env request_RU
          empty_world),
        empty_world\<lparr>events := [Redis [INCR ''attack:blocked'']]\<rparr>)"
    by (simp add: middleware_def blockedCountry_def request_RU_def BLOCKED_COUNTRIES_def
        failing_env_def example_env_def empty_world_def incrementBlockedCounter_def await_def
        redis_call_def resolve_def)
  have h1: "length (events empty_world) \<le> 0" by (simp add: empty_world_def)
  have h2: "0 < length (events (empty_world\<lparr>events := [Redis [INCR ''attack:blocked'']]\<rparr>))"
    by simp
  have h3: "is_store_call (events (empty_world\<lparr>events := [Redis [INCR ''attack:blocked'']]\<rparr>) ! 0)"
    by simp
  have h4: "fails failing_env 0" by (simp add: failing_env_def)
  from failed_store_call_rejects[OF run h1 h2 h3 h4] run h3 h4 show ?thesis by simp
qed

text \<open>
  C10. When its two round trips succeed, \<open>getAttackCounters\<close> makes the pipeline
  call and then a second, separate \<open>GET attack:total\<close>; \<open>totalRequests\<close> is what that
  read finds in the store after the increment and the delay, and 1 when the key is
  absent by then; \<open>blockedRequests\<close> is the value of \<open>attack:blocked\<close>, and 0 when
  that key is absent. With counter keys that hold counts, as they do in every state
  that requests and time reach from the empty store, \<open>totalRequests\<close> is at least 1
  and \<open>blockedRequests\<close> is not negative.
\<close>

theorem getAttackCounters_defaults:
  assumes ok1: "\<not> fails ev (length (events w))"
    and ok2: "\<not> fails ev (Suc (length (events w)))"
    and room: "can_incr (Suc 0) (store w) totalKey"
    and total: "holds_count (store w) totalKey"
    and blocked: "holds_count (store w) blockedKey"
  shows "\<exists>c w'. getAttackCounters ev w = (Inr c, w')
     \<and> events w' = events w @ [Redis pipe, Redis [GET totalKey]]
     \<and> store w' = age (read_delay ev) (snd (exec_cmds pipe (store w)))
     \<and> totalRequests c = (case store w' totalKey of None \<Rightarrow> Fin 1 | Some e \<Rightarrow> as_number (val e))
     \<and> blockedRequests c =
         (case store w blockedKey of None \<Rightarrow> Fin 0 | Some e \<Rightarrow> as_number (val e))
     \<and> (\<exists>t b. totalRequests c = Fin t \<and> 1 \<le> t \<and> blockedRequests c = Fin b \<and> 0 \<le> b)"
proof -
  let ?s = "age (read_delay ev) (snd (exec_cmds pipe (store w)))"
  have t: "\<exists>t. (case ?s totalKey of None \<Rightarrow> Fin 1 | Some e \<Rightarrow> as_number (val e)) = Fin t \<and> 1 \<le> t"
  proof (cases "?s totalKey")
    case None
    then show ?thesis by simp
  next
    case (Some e)
    from age_val[OF Some] obtain e0 where
      e0: "snd (exec_cmds pipe (store w)) totalKey = Some e0" "val e = val e0" by blast
    from incr_val[OF room total] obtain e1 v where
      e1: "snd (incr totalKey (store w)) totalKey = Some e1" "val e1 = Num v" "1 \<le> v" by blast
    from pipe_total_val[of "store w"] e0 e1 have "val e0 = Num v" by simp
    with Some e0 e1 show ?thesis by simp
  qed
  have b: "\<exists>b. (case store w blockedKey of None \<Rightarrow> Fin 0 | Some e \<Rightarrow> as_number (val e)) = Fin b
             \<and> 0 \<le> b"
    using blocked by (auto simp: holds_count_def split: option.splits rval.splits)
  from t b show ?thesis
    by (simp add: getAttackCounters_ok[OF ok1 ok2 room])
qed

theorem getAttackCounters_defaults_witness:
  "fst (getAttackCounters late_env expiring_world) =
     Inr \<lparr>totalRequests = Fin 1, blockedRequests = Fin 0\<rparr>
   \<and> store (snd (getAttackCounters late_env expiring_world)) totalKey = None
   \<and> events (snd (getAttackCounters late_env expiring_world)) =
       [Redis pipe, Redis [GET totalKey]]"
proof -
  have h1: "\<not> fails late_env (length (events expiring_world))"
    by (simp add: late_env_def example_env_def)
  have h2: "\<not> fails late_env (Suc (length (events expiring_world)))"
    by (simp add: late_env_def example_env_def)
  have h3: "can_incr (Suc 0) (store expiring_world) totalKey"
    by (simp add: can_incr_def expiring_world_def)
  have h4: "holds_count (store expiring_world) totalKey"
    by (simp add: holds_count_def expiring_world_def)
  have h5: "holds_count (store expiring_world) blockedKey"
    by (simp add: holds_count_def expiring_world_def)
  have s: "age (read_delay late_env) (snd (exec_cmds pipe (store expiring_world))) = Map.empty"
    by (rule ext)
       (simp add: age_def pipe_def incr_def expire_nx_def expiring_world_def late_env_def
          example_env_def ATTACK_TIME_WINDOW_SECONDS_def)
  from getAttackCounters_defaults[OF h1 h2 h3 h4 h5] obtain c w' where
    r: "getAttackCounters late_env expiring_world = (Inr c, w')"
    and e: "events w' = events expiring_world @ [Redis pipe, Redis [GET totalKey]]"
    and st: "store w' = age (read_delay late_env) (snd (exec_cmds pipe (store expiring_world)))"
    and t: "totalRequests c = (case store w' totalKey of None \<Rightarrow> Fin 1 | Some e \<Rightarrow> as_number (val e))"
    and b: "blockedRequests c =
         (case store expiring_world blockedKey of None \<Rightarrow> Fin 0 | Some e \<Rightarrow> as_number (val e))"
    by blast
  from t st s have "totalRequests c = Fin 1" by simp
  moreover from b have "blockedRequests c = Fin 0" by (simp add: expiring_world_def)
  ultimately have "c = \<lparr>totalRequests = Fin 1, blockedRequests = Fin 0\<rparr>" by simp
  with r e st s show ?thesis by (simp add: expiring_world_def)
qed

text \<open>
  C2. With the store configured and answering and the two counters able to take an
  increment: when a check denies (country, User-Agent, or the limiter's answer), the
  response is a deny response, the only calls made are the limiter call, if the request
  got that far, and one \<open>INCR attack:blocked\<close>, so the blocked counter is incremented
  exactly once, \<open>attack:total\<close> is not touched, and neither the counters pipeline nor
  the notification runs; when no check denies, the response is the pass-through, exactly
  one \<open>INCR attack:total\<close> is issued and no \<open>INCR attack:blocked\<close>.
\<close>

theorem denied_counts_blocked_allowed_counts_total:
  assumes conf: "redis_configured ev"
    and ok: "\<forall>i. \<not> fails ev i"
    and rb: "can_incr (Suc 0) (store w) blockedKey"
    and rt: "can_incr (Suc 0) (store w) totalKey"
    and run: "middleware bc ua rl ev request w = (r, w')"
  shows "if blockedCountry bc request \<noteq> None \<or> \<not> isAllowedUserAgent ua request
            \<or> \<not> fst (rl (limiter w) (clock w) (client_ip request))
         then (\<exists>body status. r = Inr (NextResponse body status))
            \<and> (events w' = events w @ [Redis [INCR blockedKey]]
               \<or> events w' = events w @ [Limit (client_ip request), Redis [INCR blockedKey]])
            \<and> incrs blockedKey (drop (length (events w)) (events w')) = 1
            \<and> incrs totalKey (drop (length (events w)) (events w')) = 0
            \<and> store w' = snd (incr blockedKey (store w))
         else r = Inr NextResponse_next
            \<and> incrs totalKey (drop (length (events w)) (events w')) = 1
            \<and> incrs blockedKey (drop (length (events w)) (events w')) = 0"
proof -
  from ok have ok0: "\<not> fails ev (length (events w))" by simp
  show ?thesis
  proof (cases "blockedCountry bc request")
    case (Some c)
    with run show ?thesis
      by (auto simp: mw_country[OF conf Some] deny_ok[OF ok0 rb])
  next
    case None
    show ?thesis
    proof (cases "isAllowedUserAgent ua request")
      case False
      with run None show ?thesis
        by (auto simp: mw_identity[OF conf None False] deny_ok[OF ok0 rb])
    next
      case True
      obtain b l where rl: "rl (limiter w) (clock w) (client_ip request) = (b, l)"
        by (cases "rl (limiter w) (clock w) (client_ip request)")
      let ?w1 = "w\<lparr>events := events w @ [Limit (client_ip request)], limiter := l\<rparr>"
      note L = ratelimit_limit_ok[where rl = rl and w = w and k = "client_ip request", OF ok0 rl]
      have mw: "middleware bc ua rl ev request w =
          (if \<not> b
           then await (incrementBlockedCounter ev)
                  (\<lambda>u. resolve (NextResponse ''Too many requests. Please try again later.'' 429))
                  ?w1
           else attackDetector ev ?w1)"
        by (simp add: mw_limit[OF conf None True]
              await_def[of "ratelimit_limit rl ev (client_ip request)"] L)
      show ?thesis
      proof (cases b)
        case False
        from ok have ok1: "\<not> fails ev (length (events ?w1))" by simp
        from rb have rb1: "can_incr (Suc 0) (store ?w1) blockedKey" by simp
        from run None True rl False show ?thesis
          by (auto simp: mw deny_ok[OF ok1 rb1])
      next
        case b: True
        from rt have rt1: "can_incr (Suc 0) (store ?w1) totalKey" by simp
        from attackDetector_healthy[OF ok rt1] obtain w2 es where
          d: "attackDetector ev ?w1 = (Inr NextResponse_next, w2)"
          and es: "events w2 = events ?w1 @ es" "incrs totalKey es = 1" "incrs blockedKey es = 0"
          by blast
        from run None True rl b d es show ?thesis
          by (auto simp: mw)
      qed
    qed
  qed
qed

theorem denied_counts_blocked_allowed_counts_total_witness:
  "blockedCountry BLOCKED_COUNTRIES request_RU \<noteq> None
   \<and> (\<exists>body status.
         fst (middleware BLOCKED_COUNTRIES ALLOWED_USER_AGENTS always_admit example_env request_RU
                empty_world) = Inr (NextResponse body status))
   \<and> incrs blockedKey
         (events (snd (middleware BLOCKED_COUNTRIES ALLOWED_USER_AGENTS always_admit example_env
                         request_RU empty_world))) = 1
   \<and> incrs totalKey
         (events (snd (middleware BLOCKED_COUNTRIES ALLOWED_USER_AGENTS always_admit example_env
                         request_RU empty_world))) = 0
   \<and> store (snd (middleware BLOCKED_COUNTRIES ALLOWED_USER_AGENTS always_admit example_env
                    request_RU empty_world)) = [blockedKey \<mapsto> \<lparr>val = Num 1, ttl = None\<rparr>]"
proof -
  have h1: "redis_configured example_env" by (simp add: example_env_def)
  have h2: "\<forall>i. \<not> fails example_env i" by (simp add: example_env_def)
  have h3: "can_incr (Suc 0) (store empty_world) blockedKey"
    by (simp add: can_incr_def empty_world_def)
  have h4: "can_incr (Suc 0) (store empty_world) totalKey"
    by (simp add: can_incr_def empty_world_def)
  have h5: "middleware BLOCKED_COUNTRIES ALLOWED_USER_AGENTS always_admit example_env request_RU
              empty_world =
            (fst (middleware BLOCKED_COUNTRIES ALLOWED_USER_AGENTS always_admit example_env
                    request_RU empty_world),
             snd (middleware BLOCKED_COUNTRIES ALLOWED_USER_AGENTS always_admit example_env
                    request_RU empty_world))"
    by simp
  have c: "blockedCountry BLOCKED_COUNTRIES request_RU \<noteq> None"
    by (simp add: blockedCountry_def request_RU_def BLOCKED_COUNTRIES_def)
  have e: "events empty_world = []" by (simp add: empty_world_def)
  have s: "snd (incr blockedKey (store empty_world)) = [blockedKey \<mapsto> \<lparr>val = Num 1, ttl = None\<rparr>]"
    by (simp add: incr_def empty_world_def)
  from denied_counts_blocked_allowed_counts_total[OF h1 h2 h3 h4 h5] c e s
  show ?thesis by simp
qed

text \<open>
  C1. On the allow path, with the store answering, the Telegram credentials set and
  the network up: when the total read back exceeds 10000 (and is a number JavaScript
  holds exactly) and the notification flag is absent, the middleware reads the flag,
  posts exactly one alert, and then sets the flag to \<open>true\<close> with a time to live of
  60 seconds, in this order. The alert carries the total, the blocked count,
  \<open>passed = total - blocked\<close>, and as strength the digits \<open>s\<close> of a one-decimal number
  nearest to \<open>total / 60\<close>: \<open>\<bar>s / 10 - total / 60\<bar> \<le> 1 / 20\<close>, written here as
  \<open>\<bar>6 s - total\<bar> \<le> 3\<close>. When the flag is set, it only reads the flag: nothing is
  posted and the flag is not written again.
\<close>

theorem alert_once_per_window:
  assumes conf: "redis_configured ev"
    and ok: "\<forall>i. \<not> fails ev i"
    and creds: "TELEGRAM_BOT_TOKEN ev = Some token" "token \<noteq> []"
      "TELEGRAM_CHAT_ID ev = Some chatId" "chatId \<noteq> []"
    and net: "\<not> fetch_rejects ev"
    and pass: "blockedCountry bc request = None" "isAllowedUserAgent ua request"
      "rl (limiter w) (clock w) (client_ip request) = (True, l)"
    and cnt: "getAttackCounters ev
                (w\<lparr>events := events w @ [Limit (client_ip request)], limiter := l\<rparr>) = (Inr c, w2)"
    and tot: "totalRequests c = Fin t" "10000 < t" "t < 2 ^ 53"
    and blk: "blockedRequests c = Fin b"
  shows "(store w2 ''notification_sent_flag'' = None \<longrightarrow>
            middleware bc ua rl ev request w =
              (Inr NextResponse_next,
               w2\<lparr>events := events w2 @
                      [Redis [GET ''notification_sent_flag''],
                       Fetch token chatId
                         \<lparr>attackStrength = toFixed1 (double_div (nat t) 60),
                          alert_totalRequests = Fin t,
                          alert_blockedRequests = Fin b,
                          passedRequests = Fin (t - b)\<rparr>,
                       Redis [SET_EX ''notification_sent_flag'' ''true'' 60]],
                  store := (store w2)(''notification_sent_flag'' \<mapsto>
                             \<lparr>val = Str ''true'', ttl = Some 60000\<rparr>)\<rparr>)
            \<and> \<bar>6 * int (toFixed1 (double_div (nat t) 60)) - t\<bar> \<le> 3)
       \<and> (truthy (map_option val (store w2 ''notification_sent_flag'')) \<longrightarrow>
            middleware bc ua rl ev request w =
              (Inr NextResponse_next,
               w2\<lparr>events := events w2 @ [Redis [GET ''notification_sent_flag'']]\<rparr>))"
proof -
  from ok have ok0: "\<not> fails ev (length (events w))" and ok2: "\<not> fails ev (length (events w2))"
    by simp_all
  note mw = mw_allowed[where rl = rl, OF conf ok0 pass]
  from tot have gt: "number_gt (totalRequests c) ATTACK_THRESHOLD"
    by (simp add: ATTACK_THRESHOLD_def)
  have msg: "message c =
      \<lparr>attackStrength = toFixed1 (double_div (nat t) 60),
       alert_totalRequests = Fin t,
       alert_blockedRequests = Fin b,
       passedRequests = Fin (t - b)\<rparr>"
    using tot blk by (simp add: message_def ATTACK_TIME_WINDOW_SECONDS_def)
  have near: "\<bar>6 * int (toFixed1 (double_div (nat t) 60)) - t\<bar> \<le> 3"
  proof -
    from tot have n: "0 < nat t" "nat t < 2 ^ 53"
      by (simp_all add: nat_less_iff)
    from toFixed1_double_div_60[OF n] tot(2) show ?thesis by linarith
  qed
  have sent: "middleware bc ua rl ev request w =
              (Inr NextResponse_next,
               w2\<lparr>events := events w2 @
                      [Redis [GET ''notification_sent_flag''],
                       Fetch token chatId
                         \<lparr>attackStrength = toFixed1 (double_div (nat t) 60),
                          alert_totalRequests = Fin t,
                          alert_blockedRequests = Fin b,
                          passedRequests = Fin (t - b)\<rparr>,
                       Redis [SET_EX ''notification_sent_flag'' ''true'' 60]],
                  store := (store w2)(''notification_sent_flag'' \<mapsto>
                             \<lparr>val = Str ''true'', ttl = Some 60000\<rparr>)\<rparr>)"
    if absent: "store w2 ''notification_sent_flag'' = None"
  proof -
    from absent have f: "\<not> truthy (map_option val (store w2 ''notification_sent_flag''))"
      by simp
    let ?w3 = "sendTelegramMessage ev (message c)
           (w2\<lparr>events := events w2 @ [Redis [GET ''notification_sent_flag'']]\<rparr>)"
    from ok have ok3: "\<not> fails ev (length (events ?w3))" by simp
    show ?thesis
      unfolding mw attackDetector_notifies[OF cnt gt ok2 f refl ok3]
      by (simp add: sendTelegramMessage_ok[OF creds net] msg ATTACK_TIME_WINDOW_SECONDS_def)
  qed
  have kept: "middleware bc ua rl ev request w =
              (Inr NextResponse_next,
               w2\<lparr>events := events w2 @ [Redis [GET ''notification_sent_flag'']]\<rparr>)"
    if tr: "truthy (map_option val (store w2 ''notification_sent_flag''))"
    unfolding mw by (rule attackDetector_suppressed[OF cnt gt ok2 tr])
  from sent near kept show ?thesis by blast
qed

theorem alert_once_per_window_witness:
  "fst (middleware BLOCKED_COUNTRIES ALLOWED_USER_AGENTS always_admit example_env request_chrome
          busy_world) = Inr NextResponse_next
   \<and> events (snd (middleware BLOCKED_COUNTRIES ALLOWED_USER_AGENTS always_admit example_env
                     request_chrome busy_world)) =
       [Limit ''192.0.2.1'', Redis pipe, Redis [GET totalKey],
        Redis [GET ''notification_sent_flag''],
        Fetch ''123:abc'' ''42''
          \<lparr>attackStrength = 1667, alert_totalRequests = Fin 10001,
           alert_blockedRequests = Fin 250, passedRequests = Fin 9751\<rparr>,
        Redis [SET_EX ''notification_sent_flag'' ''true'' 60]]
   \<and> store (snd (middleware BLOCKED_COUNTRIES ALLOWED_USER_AGENTS always_admit example_env
                    request_chrome busy_world)) ''notification_sent_flag'' =
       Some \<lparr>val = Str ''true'', ttl = Some 60000\<rparr>"
proof -
  let ?w1 = "busy_world\<lparr>events := events busy_world @ [Limit (client_ip request_chrome)],
                        limiter := ()\<rparr>"
  let ?c = "\<lparr>totalRequests = Fin 10001, blockedRequests = Fin 250\<rparr>"
  let ?w2 = "snd (getAttackCounters example_env ?w1)"
  have conf: "redis_configured example_env" by (simp add: example_env_def)
  have ok: "\<forall>i. \<not> fails example_env i" by (simp add: example_env_def)
  have creds: "TELEGRAM_BOT_TOKEN example_env = Some ''123:abc''" "''123:abc'' \<noteq> []"
      "TELEGRAM_CHAT_ID example_env = Some ''42''" "''42'' \<noteq> []"
    by (simp_all add: example_env_def)
  have net: "\<not> fetch_rejects example_env" by (simp add: example_env_def)
  have pass: "blockedCountry BLOCKED_COUNTRIES request_chrome = None"
      "isAllowedUserAgent ALLOWED_USER_AGENTS request_chrome"
      "always_admit (limiter busy_world) (clock busy_world) (client_ip request_chrome) = (True, ())"
    by (simp_all add: blockedCountry_def BLOCKED_COUNTRIES_def request_chrome_def
          isAllowedUserAgent_def ALLOWED_USER_AGENTS_def userAgent_def str_includes_def
          always_admit_def)
  have room: "can_incr (Suc 0) (store ?w1) totalKey"
    by (simp add: can_incr_def busy_world_def)
  have G: "getAttackCounters example_env ?w1 =
      (Inr \<lparr>totalRequests =
             (case age (read_delay example_env) (snd (exec_cmds pipe (store ?w1))) totalKey of
                None \<Rightarrow> Fin 1 | Some e \<Rightarrow> as_number (val e)),
           blockedRequests =
             (case store ?w1 blockedKey of None \<Rightarrow> Fin 0 | Some e \<Rightarrow> as_number (val e))\<rparr>,
      ?w1\<lparr>events := events ?w1 @ [Redis pipe, Redis [GET totalKey]],
        store := age (read_delay example_env) (snd (exec_cmds pipe (store ?w1))),
        clock := clock ?w1 + read_delay example_env\<rparr>)"
    by (rule getAttackCounters_ok) (use ok room in simp_all)
  have c: "fst (getAttackCounters example_env ?w1) = Inr ?c"
    unfolding G
    by (simp add: busy_world_def example_env_def pipe_def incr_def expire_nx_def age_def
          ATTACK_TIME_WINDOW_SECONDS_def)
  then have cnt: "getAttackCounters example_env ?w1 = (Inr ?c, ?w2)"
    by (simp add: prod_eq_iff)
  have tot: "totalRequests ?c = Fin 10001" "(10000::int) < 10001" "(10001::int) < 2 ^ 53"
    by simp_all
  have blk: "blockedRequests ?c = Fin 250" by simp
  have absent: "store ?w2 ''notification_sent_flag'' = None"
    unfolding G
    by (simp add: busy_world_def example_env_def pipe_def incr_def expire_nx_def age_def
          totalKey_def blockedKey_def)
  have ev2: "events ?w2 = [Limit ''192.0.2.1'', Redis pipe, Redis [GET totalKey]]"
    unfolding G by (simp add: busy_world_def client_ip_def request_chrome_def)
  have n: "scale53 10001 60 = (351878905260408832, 60)"
    by (simp add: scale53.simps)
  have s: "toFixed1 (double_div (nat 10001) 60) = 1667"
    by (simp add: toFixed1_def double_div_def n round_half_even_def Let_def)
  from alert_once_per_window[where rl = always_admit, OF conf ok creds net pass cnt tot blk]
    absent ev2 s
  show ?thesis by simp
qed

text \<open>
  C9. On the allow path with the store answering, when the total read back exceeds
  10000 and the notification flag is absent, the flag ends up set to \<open>true\<close> with a
  time to live of 60 seconds whatever the Telegram credentials are and whether or not
  the \<open>fetch\<close> gets through. From then on, for every run of further requests that is
  over before those 60 seconds are, whatever the environment then is, the middleware
  makes calls to the store only: it does not post and does not even reach
  \<open>sendTelegramMessage\<close>.
\<close>

theorem flag_set_whatever_the_delivery:
  assumes conf: "redis_configured ev"
    and ok: "\<forall>i. \<not> fails ev i"
    and pass: "blockedCountry bc request = None" "isAllowedUserAgent ua request"
      "rl (limiter w) (clock w) (client_ip request) = (True, l)"
    and cnt: "getAttackCounters ev
                (w\<lparr>events := events w @ [Limit (client_ip request)], limiter := l\<rparr>) = (Inr c, w2)"
    and tot: "totalRequests c = Fin t" "10000 < t"
    and absent: "store w2 ''notification_sent_flag'' = None"
  shows "\<exists>w'. middleware bc ua rl ev request w = (Inr NextResponse_next, w')
     \<and> store w' ''notification_sent_flag'' = Some \<lparr>val = Str ''true'', ttl = Some 60000\<rparr>
     \<and> (\<forall>ev' rl' reqs.
           sum_list (map fst reqs) + length reqs * read_delay ev' < 60000 \<longrightarrow>
           (\<forall>e \<in> set (drop (length (events w')) (events (snd (serve rl' ev' reqs w')))).
              is_store_call e))"
proof -
  from ok have ok0: "\<not> fails ev (length (events w))" and ok2: "\<not> fails ev (length (events w2))"
    by simp_all
  note mw = mw_allowed[where rl = rl, OF conf ok0 pass]
  from tot have gt: "number_gt (totalRequests c) ATTACK_THRESHOLD"
    by (simp add: ATTACK_THRESHOLD_def)
  from absent have f: "\<not> truthy (map_option val (store w2 ''notification_sent_flag''))"
    by simp
  define w3 where "w3 = sendTelegramMessage ev (message c)
           (w2\<lparr>events := events w2 @ [Redis [GET ''notification_sent_flag'']]\<rparr>)"
  define w' where "w' = w3\<lparr>events := events w3 @
              [Redis [SET_EX ''notification_sent_flag'' ''true'' ATTACK_TIME_WINDOW_SECONDS]],
         store := (store w3)(''notification_sent_flag'' \<mapsto>
                    \<lparr>val = Str ''true'', ttl = Some (ATTACK_TIME_WINDOW_SECONDS * 1000)\<rparr>)\<rparr>"
  from ok have ok3: "\<not> fails ev (length (events w3))" by simp
  have run: "middleware bc ua rl ev request w = (Inr NextResponse_next, w')"
    unfolding mw w'_def
    by (rule attackDetector_notifies[OF cnt gt ok2 f w3_def[symmetric] ok3])
  have flag: "store w' ''notification_sent_flag'' = Some \<lparr>val = Str ''true'', ttl = Some 60000\<rparr>"
    by (simp add: w'_def ATTACK_TIME_WINDOW_SECONDS_def)
  then have fs: "flag_set 60000 (store w')" by (simp add: flag_set_def)
  have later: "\<forall>e \<in> set (drop (length (events w')) (events (snd (serve rl' ev' reqs w')))).
              is_store_call e"
    if d: "sum_list (map fst reqs) + length reqs * read_delay ev' < 60000" for ev' rl' reqs
  proof -
    from serve_quiet[OF fs d, of rl']
    obtain es where "events (snd (serve rl' ev' reqs w')) = events w' @ es"
      "\<forall>e \<in> set es. is_store_call e"
      by (auto simp: only_store_calls_def)
    then show ?thesis by simp
  qed
  from run flag later show ?thesis by blast
qed

theorem flag_set_whatever_the_delivery_witness:
  "fst (middleware BLOCKED_COUNTRIES ALLOWED_USER_AGENTS always_admit silent_env request_chrome
          busy_world) = Inr NextResponse_next
   \<and> store (snd (middleware BLOCKED_COUNTRIES ALLOWED_USER_AGENTS always_admit silent_env
                    request_chrome busy_world)) ''notification_sent_flag'' =
       Some \<lparr>val = Str ''true'', ttl = Some 60000\<rparr>
   \<and> list_all is_store_call
         (drop (length (events (snd (middleware BLOCKED_COUNTRIES ALLOWED_USER_AGENTS
                                       always_admit silent_env request_chrome busy_world))))
            (events (snd (serve always_admit example_env later_requests
                            (snd (middleware BLOCKED_COUNTRIES ALLOWED_USER_AGENTS
                                    always_admit silent_env request_chrome busy_world))))))"
proof -
  let ?w1 = "busy_world\<lparr>events := events busy_world @ [Limit (client_ip request_chrome)],
                        limiter := ()\<rparr>"
  let ?c = "\<lparr>totalRequests = Fin 10001, blockedRequests = Fin 250\<rparr>"
  let ?w2 = "snd (getAttackCounters silent_env ?w1)"
  have conf: "redis_configured silent_env" by (simp add: silent_env_def example_env_def)
  have ok: "\<forall>i. \<not> fails silent_env i" by (simp add: silent_env_def example_env_def)
  have pass: "blockedCountry BLOCKED_COUNTRIES request_chrome = None"
      "isAllowedUserAgent ALLOWED_USER_AGENTS request_chrome"
      "always_admit (limiter busy_world) (clock busy_world) (client_ip request_chrome) = (True, ())"
    by (simp_all add: blockedCountry_def BLOCKED_COUNTRIES_def request_chrome_def
          isAllowedUserAgent_def ALLOWED_USER_AGENTS_def userAgent_def str_includes_def
          always_admit_def)
  have room: "can_incr (Suc 0) (store ?w1) totalKey"
    by (simp add: can_incr_def busy_world_def)
  have G: "getAttackCounters silent_env ?w1 =
      (Inr \<lparr>totalRequests =
             (case age (read_delay silent_env) (snd (exec_cmds pipe (store ?w1))) totalKey of
                None \<Rightarrow> Fin 1 | Some e \<Rightarrow> as_number (val e)),
           blockedRequests =
             (case store ?w1 blockedKey of None \<Rightarrow> Fin 0 | Some e \<Rightarrow> as_number (val e))\<rparr>,
      ?w1\<lparr>events := events ?w1 @ [Redis pipe, Redis [GET totalKey]],
        store := age (read_delay silent_env) (snd (exec_cmds pipe (store ?w1))),
        clock := clock ?w1 + read_delay silent_env\<rparr>)"
    by (rule getAttackCounters_ok) (use ok room in simp_all)
  have c: "fst (getAttackCounters silent_env ?w1) = Inr ?c"
    unfolding G
    by (simp add: busy_world_def silent_env_def example_env_def pipe_def incr_def expire_nx_def
          age_def ATTACK_TIME_WINDOW_SECONDS_def)
  then have cnt: "getAttackCounters silent_env ?w1 = (Inr ?c, ?w2)"
    by (simp add: prod_eq_iff)
  have tot: "totalRequests ?c = Fin 10001" "(10000::int) < 10001"
    by simp_all
  have absent: "store ?w2 ''notification_sent_flag'' = None"
    unfolding G
    by (simp add: busy_world_def silent_env_def example_env_def pipe_def incr_def expire_nx_def
          age_def totalKey_def blockedKey_def)
  from flag_set_whatever_the_delivery[where rl = always_admit, OF conf ok pass cnt tot absent]
  obtain w' where
    run: "middleware BLOCKED_COUNTRIES ALLOWED_USER_AGENTS always_admit silent_env request_chrome
            busy_world = (Inr NextResponse_next, w')"
    and flag: "store w' ''notification_sent_flag'' = Some \<lparr>val = Str ''true'', ttl = Some 60000\<rparr>"
    and later: "\<And>ev' rl' reqs.
           sum_list (map fst reqs) + length reqs * read_delay ev' < 60000 \<Longrightarrow>
           (\<forall>e \<in> set (drop (length (events w')) (events (snd (serve rl' ev' reqs w')))).
              is_store_call e)"
    by blast
  have d: "sum_list (map fst later_requests) + length later_requests * read_delay example_env
             < 60000"
    by (simp add: later_requests_def example_env_def)
  from run flag later[OF d, of always_admit]
  show ?thesis by (simp add: list_all_iff)
qed

text \<open>
  C7. Eleven requests from one client key that pass the country and identity checks,
  served by the limiter configured with 10 requests per 10 seconds: when the key is new
  to the limiter and the eleventh request still falls inside the 10 seconds that begin
  with the first, the first ten are passed through and the eleventh is answered with
  status 429.
\<close>

theorem eleventh_request_is_limited:
  assumes conf: "redis_configured ev" and ok: "\<forall>i. \<not> fails ev i"
    and len: "length reqs = 11"
    and same: "\<forall>x \<in> set reqs. client_ip (snd x) = k
                 \<and> blockedCountry BLOCKED_COUNTRIES (snd x) = None
                 \<and> isAllowedUserAgent ALLOWED_USER_AGENTS (snd x)"
    and fresh: "limiter w k = []"
    and within: "sum_list (map fst (tl reqs)) + 10 * read_delay ev < 10000"
    and room: "can_incr 10 (store w) totalKey" "can_incr 1 (store w) blockedKey"
  shows "fst (serve ratelimit ev reqs w) =
           replicate 10 (Inr NextResponse_next) @
           [Inr (NextResponse ''Too many requests. Please try again later.'' 429)]"
proof -
  define xs where "xs = butlast reqs"
  define y where "y = last reqs"
  from len have ne: "reqs \<noteq> []" by auto
  then have reqs: "reqs = xs @ [y]" by (simp add: xs_def y_def)
  from len have lxs: "length xs = 10" by (simp add: xs_def)
  then have xne: "xs \<noteq> []" by auto
  obtain d request where y: "y = (d, request)" by (cases y)
  define T0 where "T0 = clock w + fst (hd xs)"
  have W: "INDIVIDUAL_RATE_LIMIT_window = 10000"
    by (simp add: INDIVIDUAL_RATE_LIMIT_window_def)
  have cap: "INDIVIDUAL_RATE_LIMIT_requests = 10"
    by (simp add: INDIVIDUAL_RATE_LIMIT_requests_def)
  have sum_xs: "sum_list (map fst xs) = fst (hd xs) + sum_list (map fst (tl xs))"
    using xne by (cases xs) simp_all
  have sum_tl: "sum_list (map fst (tl reqs)) = sum_list (map fst (tl xs)) + d"
    using xne by (simp add: reqs y)
  have p1: "\<forall>x \<in> set xs. client_ip (snd x) = k
             \<and> blockedCountry BLOCKED_COUNTRIES (snd x) = None
             \<and> isAllowedUserAgent ALLOWED_USER_AGENTS (snd x)"
    using same by (simp add: reqs)
  have p2: "\<forall>t \<in> set (limiter w k). T0 \<le> t \<or> t + INDIVIDUAL_RATE_LIMIT_window \<le> T0"
    by (simp add: fresh)
  have p3: "length (filter (\<lambda>t. T0 \<le> t) (limiter w k)) + length xs
              \<le> INDIVIDUAL_RATE_LIMIT_requests"
    by (simp add: fresh lxs cap)
  have p4: "xs \<noteq> [] \<longrightarrow> T0 \<le> clock w + fst (hd xs)"
    by (simp add: T0_def)
  have p5: "clock w + sum_list (map fst xs) + length xs * read_delay ev
              < T0 + INDIVIDUAL_RATE_LIMIT_window + read_delay ev"
    using within by (simp add: T0_def W lxs sum_xs sum_tl)
  have p6: "can_incr (length xs) (store w) totalKey"
    using room(1) by (simp add: lxs)
  from serve_admits[OF conf ok p1 p2 p3 p4 p5 p6 room(2)] obtain w1 where
    run: "serve ratelimit ev xs w = (replicate 10 (Inr NextResponse_next), w1)"
    and inv: "\<forall>t \<in> set (limiter w1 k). T0 \<le> t \<or> t + INDIVIDUAL_RATE_LIMIT_window \<le> T0"
    and cnt: "length (filter (\<lambda>t. T0 \<le> t) (limiter w1 k)) = 10"
    and clk: "clock w1 = clock w + sum_list (map fst xs) + 10 * read_delay ev"
    and rb: "can_incr 1 (store w1) blockedKey"
    by (auto simp: lxs fresh)
  let ?we = "elapse d w1"
  have we: "limiter ?we = limiter w1" "clock ?we = clock w1 + d" "store ?we = age d (store w1)"
    by (simp_all add: elapse_def)
  from same have key: "client_ip request = k"
    and pass: "blockedCountry BLOCKED_COUNTRIES request = None"
      "isAllowedUserAgent ALLOWED_USER_AGENTS request"
    by (simp_all add: reqs y)
  have lo: "T0 \<le> clock w1 + d" by (simp add: clk T0_def sum_xs)
  have hi: "clock w1 + d < T0 + INDIVIDUAL_RATE_LIMIT_window"
    using within by (simp add: clk T0_def W sum_xs sum_tl)
  have full: "\<not> length (filter (\<lambda>t. clock ?we < t + INDIVIDUAL_RATE_LIMIT_window)
                (limiter ?we (client_ip request))) < INDIVIDUAL_RATE_LIMIT_requests"
    by (simp add: we key recent_are_new[OF inv lo hi] cnt cap)
  from rb have rb': "can_incr (Suc 0) (store ?we) blockedKey"
    by (simp add: we can_incr_age)
  note last = step_denied[OF conf ok pass full rb']
  obtain w2 where "middleware BLOCKED_COUNTRIES ALLOWED_USER_AGENTS ratelimit ev request ?we =
      (Inr (NextResponse ''Too many requests. Please try again later.'' 429), w2)"
    using last by (cases "middleware BLOCKED_COUNTRIES ALLOWED_USER_AGENTS ratelimit ev request ?we")
      simp
  then show ?thesis
    unfolding reqs serve_append
    by (simp add: run y)
qed

theorem eleventh_request_is_limited_witness:
  "fst (serve ratelimit example_env eleven_requests fresh_world) =
     replicate 10 (Inr NextResponse_next) @
     [Inr (NextResponse ''Too many requests. Please try again later.'' 429)]"
proof -
  have conf: "redis_configured example_env" by (simp add: example_env_def)
  have ok: "\<forall>i. \<not> fails example_env i" by (simp add: example_env_def)
  have len: "length eleven_requests = 11" by (simp add: eleven_requests_def)
  have same: "\<forall>x \<in> set eleven_requests. client_ip (snd x) = ''192.0.2.1''
                 \<and> blockedCountry BLOCKED_COUNTRIES (snd x) = None
                 \<and> isAllowedUserAgent ALLOWED_USER_AGENTS (snd x)"
    by (simp add: eleven_requests_def client_ip_def blockedCountry_def BLOCKED_COUNTRIES_def
          request_chrome_def isAllowedUserAgent_def ALLOWED_USER_AGENTS_def userAgent_def
          str_includes_def)
  have fresh: "limiter fresh_world ''192.0.2.1'' = []" by (simp add: fresh_world_def)
  have within: "sum_list (map fst (tl eleven_requests)) + 10 * read_delay example_env < 10000"
    by (simp add: eleven_requests_def example_env_def sum_list_replicate)
  have room: "can_incr 10 (store fresh_world) totalKey" "can_incr 1 (store fresh_world) blockedKey"
    by (simp_all add: can_incr_def fresh_world_def)
  from eleventh_request_is_limited[OF conf ok len same fresh within room]
  show ?thesis .
qed

end
